theory Spec2Isabelle
  imports Complex_Main "HOL-Library.Word"
begin

section \<open>Data model of the grid pathfinder\<close>

text \<open>
  A shallow embedding of \<^verbatim>\<open>src/game/systems/pathfinding.cpp\<close>.  The class
  \<^verbatim>\<open>Pathfinding\<close> becomes a record of its members; every member function takes the
  record and returns the updated one.  The mutexes and the worker thread are left out:
  every function is modelled as it runs while holding its lock.

  Grid coordinates, cell indices and path costs are C++ \<^verbatim>\<open>int\<close>; they are modelled
  as \<open>int\<close>, since no value in a search exceeds the number of cells plus the Manhattan
  distance.  The generation counter is a \<^verbatim>\<open>std::uint32_t\<close> whose wrap-around matters
  and is a \<open>32 word\<close>.  Obstacle flags are \<^verbatim>\<open>std::uint8_t\<close>.  The two grid offsets
  are \<^verbatim>\<open>float\<close>; each is modelled as the rational number that the binary32 value
  denotes.
\<close>

datatype Point = Point (px: int) (py: int)

datatype QueueNode = QueueNode (node_index: int) (fCost: int) (gCost: int)

record pathfinding =
  m_width :: int
  m_height :: int
  m_obstacles :: "8 word list list"
  m_obstaclesDirty :: bool
  m_gridOffsetX :: rat
  m_gridOffsetZ :: rat
  m_closedGeneration :: "32 word list"
  m_gCostGeneration :: "32 word list"
  m_gCostValues :: "int list"
  m_parentGeneration :: "32 word list"
  m_parentValues :: "int list"
  m_generationCounter :: "32 word"
  m_openHeap :: "QueueNode list"
  m_resultQueue :: "(64 word \<times> Point list) list"

text \<open>\<^verbatim>\<open>std::numeric_limits<int>::max()\<close>, the "infinite cost" sentinel.\<close>

definition INT_MAX :: int where
  "INT_MAX = 2147483647"

text \<open>
  Modelled from the spec: \<^verbatim>\<open>toIndex\<close> is declared in the header
  \<^verbatim>\<open>pathfinding.h\<close>, which is not among the sources.  The spec speaks of the
  "flattened cell index" of a \<open>width \<times> height\<close> grid: row-major, \<open>y * width + x\<close>.
\<close>

definition toIndex :: "pathfinding \<Rightarrow> Point \<Rightarrow> int" where
  "toIndex s p = py p * m_width s + px p"

text \<open>
  Modelled from the spec: \<^verbatim>\<open>toPoint\<close>, from the same missing header, is the inverse
  of the flattened index.  It is only ever applied to non-negative indices, where C++
  \<^verbatim>\<open>%\<close> and \<^verbatim>\<open>/\<close> agree with \<open>mod\<close> and \<open>div\<close>.
\<close>

definition toPoint :: "pathfinding \<Rightarrow> int \<Rightarrow> Point" where
  "toPoint s i = Point (i mod m_width s) (i div m_width s)"

section \<open>Obstacle grid\<close>

definition setGridOffset :: "pathfinding \<Rightarrow> rat \<Rightarrow> rat \<Rightarrow> pathfinding" where
  "setGridOffset s offset_x offset_z = s\<lparr>m_gridOffsetX := offset_x, m_gridOffsetZ := offset_z\<rparr>"

definition setObstacle :: "pathfinding \<Rightarrow> int \<Rightarrow> int \<Rightarrow> bool \<Rightarrow> pathfinding" where
  "setObstacle s x y isObstacle =
     (if x \<ge> 0 \<and> x < m_width s \<and> y \<ge> 0 \<and> y < m_height s
      then s\<lparr>m_obstacles :=
               (m_obstacles s)[nat y := (m_obstacles s ! nat y)[nat x := (if isObstacle then 1 else 0)]]\<rparr>
      else s)"

definition isWalkable :: "pathfinding \<Rightarrow> int \<Rightarrow> int \<Rightarrow> bool" where
  "isWalkable s x y =
     (if x < 0 \<or> x \<ge> m_width s \<or> y < 0 \<or> y \<ge> m_height s then False
      else m_obstacles s ! nat y ! nat x = 0)"

definition markObstaclesDirty :: "pathfinding \<Rightarrow> pathfinding" where
  "markObstaclesDirty s = s\<lparr>m_obstaclesDirty := True\<rparr>"

text \<open>
  The two external collaborators of the rebuild are parameters of the model.  The terrain
  service is what \<^verbatim>\<open>updateBuildingObstacles\<close> reads of it: whether it is initialised,
  the dimensions of its height map (\<open>None\<close> for a null pointer) and its walkability
  query.

  Modelled from the spec: the building registry is not among the sources.  It is the
  list, per building, of the cells that \<^verbatim>\<open>getOccupiedGridCells\<close> returns for it, the
  spec's "cell coordinates it occupies": pairs of \<^verbatim>\<open>int\<close>.
\<close>

record terrain_service =
  ts_isInitialized :: bool
  ts_heightMap :: "(int \<times> int) option"
  ts_isWalkable :: "int \<Rightarrow> int \<Rightarrow> bool"

text \<open>
  The grid offsets are \<^verbatim>\<open>float\<close> members and the conversion of a building cell is
  computed in \<^verbatim>\<open>float\<close>: IEEE binary32, rounding to nearest with ties to the even
  significand.  A finite binary32 value is modelled as the rational number it denotes.

  The binary32 values of magnitude from \<open>2\<^sup>k\<^sup>+\<^sup>2\<^sup>3\<close> up to \<open>2\<^sup>k\<^sup>+\<^sup>2\<^sup>4\<close> are the multiples
  of \<open>2\<^sup>k\<close>, for \<open>k\<close> from \<open>-149\<close> (where the subnormal numbers join the first
  binade) to \<open>104\<close> (the last binade).  The spacing \<open>2\<^sup>k\<close> around \<open>q\<close> is searched
  from the binade of 1: upwards by doubling when \<open>1 \<le> \<bar>q\<bar>\<close>, downwards by halving
  otherwise; \<open>ulp\<close> is \<open>2\<^sup>k\<close> throughout.
\<close>

function ulp_up :: "int \<Rightarrow> rat \<Rightarrow> rat \<Rightarrow> rat" where
  "ulp_up k q ulp =
     (if 104 \<le> k \<or> \<bar>q\<bar> < ulp * 2 ^ 24 then ulp else ulp_up (k + 1) q (2 * ulp))"
  by pat_completeness auto
termination
  by (relation "measure (\<lambda>(k, q, ulp). nat (104 - k))") auto

function ulp_down :: "int \<Rightarrow> rat \<Rightarrow> rat \<Rightarrow> rat" where
  "ulp_down k q ulp =
     (if k \<le> - 149 \<or> ulp * 2 ^ 23 \<le> \<bar>q\<bar> then ulp else ulp_down (k - 1) q (ulp / 2))"
  by pat_completeness auto
termination
  by (relation "measure (\<lambda>(k, q, ulp). nat (k + 149))") auto

definition binary32_ulp :: "rat \<Rightarrow> rat" where
  "binary32_ulp q =
     (if \<bar>q\<bar> < 1 then ulp_down (- 24) q (1 / 2 ^ 24) else ulp_up (- 23) q (1 / 2 ^ 23))"

definition round_to_even :: "rat \<Rightarrow> int" where
  "round_to_even v =
     (let f = \<lfloor>v\<rfloor>; r = v - of_int f
      in if r < 1 / 2 then f else if 1 / 2 < r then f + 1 else if even f then f else f + 1)"

text \<open>
  The binary32 value nearest to a rational.  Overflow to infinity needs a magnitude of
  \<open>2\<^sup>1\<^sup>2\<^sup>8\<close> and does not arise from an \<^verbatim>\<open>int\<close> and a finite offset; infinite and NaN
  offsets, for which the final cast to \<^verbatim>\<open>int\<close> is undefined, are outside the model.
\<close>

definition to_binary32 :: "rat \<Rightarrow> rat" where
  "to_binary32 q =
     (if q = 0 then 0
      else of_int (round_to_even (q / binary32_ulp q)) * binary32_ulp q)"

text \<open>The conversion of an \<^verbatim>\<open>int\<close> operand to \<^verbatim>\<open>float\<close>, and the \<^verbatim>\<open>float\<close> subtraction.\<close>

definition float_of_int :: "int \<Rightarrow> rat" where
  "float_of_int v = to_binary32 (of_int v)"

definition float_sub :: "rat \<Rightarrow> rat \<Rightarrow> rat" where
  "float_sub a b = to_binary32 (a - b)"

text \<open>
  \<^verbatim>\<open>static_cast<int>(std::round(v))\<close>: the nearest integer, halves away from zero.  The
  result of \<^verbatim>\<open>std::round\<close> on a binary32 value is a binary32 value, so this step is
  exact.  Beyond the range of \<^verbatim>\<open>int\<close> the cast is undefined; the model keeps the
  mathematical value, which lies outside every grid of \<^verbatim>\<open>int\<close> dimensions, where the
  cell is ignored.
\<close>

definition cpp_round :: "rat \<Rightarrow> int" where
  "cpp_round v = (if v \<ge> 0 then \<lfloor>v + 1 / 2\<rfloor> else \<lceil>v - 1 / 2\<rceil>)"

definition block_cell :: "8 word list list \<Rightarrow> nat \<Rightarrow> nat \<Rightarrow> 8 word list list" where
  "block_cell obs z x = obs[z := (obs ! z)[x := 1]]"

definition clear_obstacles :: "8 word list list \<Rightarrow> 8 word list list" where
  "clear_obstacles obs = map (\<lambda>row. replicate (length row) 0) obs"

definition terrain_cell :: "terrain_service \<Rightarrow> int \<Rightarrow> int \<Rightarrow> nat \<Rightarrow> nat \<Rightarrow>
    8 word list list \<Rightarrow> 8 word list list" where
  "terrain_cell t terrain_width terrain_height z x obs =
     (let blocked = (if int x < terrain_width \<and> int z < terrain_height
                     then \<not> ts_isWalkable t (int x) (int z) else True)
      in if blocked then block_cell obs z x else obs)"

definition terrain_width :: "terrain_service \<Rightarrow> int" where
  "terrain_width t = (case ts_heightMap t of Some wh \<Rightarrow> fst wh | None \<Rightarrow> 0)"

definition terrain_height :: "terrain_service \<Rightarrow> int" where
  "terrain_height t = (case ts_heightMap t of Some wh \<Rightarrow> snd wh | None \<Rightarrow> 0)"

definition terrain_pass :: "pathfinding \<Rightarrow> terrain_service \<Rightarrow> 8 word list list \<Rightarrow> 8 word list list" where
  "terrain_pass s t obs =
     fold (\<lambda>z. fold (terrain_cell t (terrain_width t) (terrain_height t) z) [0..<nat (m_width s)])
          [0..<nat (m_height s)] obs"

definition building_cell :: "pathfinding \<Rightarrow> int \<times> int \<Rightarrow> 8 word list list \<Rightarrow> 8 word list list" where
  "building_cell s cell obs =
     (let grid_x = cpp_round (float_sub (float_of_int (fst cell)) (m_gridOffsetX s));
          grid_z = cpp_round (float_sub (float_of_int (snd cell)) (m_gridOffsetZ s))
      in if grid_x \<ge> 0 \<and> grid_x < m_width s \<and> grid_z \<ge> 0 \<and> grid_z < m_height s
         then block_cell obs (nat grid_z) (nat grid_x) else obs)"

definition building_pass :: "pathfinding \<Rightarrow> (int \<times> int) list list \<Rightarrow> 8 word list list \<Rightarrow>
    8 word list list" where
  "building_pass s buildings obs = fold (\<lambda>cells. fold (building_cell s) cells) buildings obs"

definition updateBuildingObstacles :: "pathfinding \<Rightarrow> terrain_service \<Rightarrow> (int \<times> int) list list \<Rightarrow>
    pathfinding" where
  "updateBuildingObstacles s t buildings =
     (if \<not> m_obstaclesDirty s then s
      else let obs0 = clear_obstacles (m_obstacles s);
               obs1 = (if ts_isInitialized t then terrain_pass s t obs0 else obs0);
               obs2 = building_pass s buildings obs1
           in s\<lparr>m_obstacles := obs2, m_obstaclesDirty := False\<rparr>)"

section \<open>Generation-stamped scratch store\<close>

definition ensureWorkingBuffers :: "pathfinding \<Rightarrow> pathfinding" where
  "ensureWorkingBuffers s =
     (let total_cells = nat (m_width s) * nat (m_height s)
      in if length (m_closedGeneration s) \<noteq> total_cells
         then s\<lparr>m_closedGeneration := replicate total_cells 0,
                m_gCostGeneration := replicate total_cells 0,
                m_gCostValues := replicate total_cells INT_MAX,
                m_parentGeneration := replicate total_cells 0,
                m_parentValues := replicate total_cells (- 1)\<rparr>
         else s)"

definition resetGenerations :: "pathfinding \<Rightarrow> pathfinding" where
  "resetGenerations s =
     s\<lparr>m_closedGeneration := replicate (length (m_closedGeneration s)) 0,
       m_gCostGeneration := replicate (length (m_gCostGeneration s)) 0,
       m_parentGeneration := replicate (length (m_parentGeneration s)) 0,
       m_gCostValues := replicate (length (m_gCostValues s)) INT_MAX,
       m_parentValues := replicate (length (m_parentValues s)) (- 1),
       m_generationCounter := 0\<rparr>"

definition nextGeneration :: "pathfinding \<Rightarrow> 32 word \<times> pathfinding" where
  "nextGeneration s =
     (let s1 = s\<lparr>m_generationCounter := m_generationCounter s + 1\<rparr>;
          next = m_generationCounter s1
      in if next = 0
         then let s2 = resetGenerations s1;
                  s3 = s2\<lparr>m_generationCounter := m_generationCounter s2 + 1\<rparr>
              in (m_generationCounter s3, s3)
         else (next, s1))"

definition isClosed :: "pathfinding \<Rightarrow> int \<Rightarrow> 32 word \<Rightarrow> bool" where
  "isClosed s index generation =
     (index \<ge> 0 \<and> nat index < length (m_closedGeneration s) \<and>
      m_closedGeneration s ! nat index = generation)"

definition setClosed :: "pathfinding \<Rightarrow> int \<Rightarrow> 32 word \<Rightarrow> pathfinding" where
  "setClosed s index generation =
     (if index \<ge> 0 \<and> nat index < length (m_closedGeneration s)
      then s\<lparr>m_closedGeneration := (m_closedGeneration s)[nat index := generation]\<rparr>
      else s)"

definition getGCost :: "pathfinding \<Rightarrow> int \<Rightarrow> 32 word \<Rightarrow> int" where
  "getGCost s index generation =
     (if index < 0 \<or> nat index \<ge> length (m_gCostGeneration s) then INT_MAX
      else if m_gCostGeneration s ! nat index = generation then m_gCostValues s ! nat index
      else INT_MAX)"

definition setGCost :: "pathfinding \<Rightarrow> int \<Rightarrow> 32 word \<Rightarrow> int \<Rightarrow> pathfinding" where
  "setGCost s index generation cost =
     (if index \<ge> 0 \<and> nat index < length (m_gCostGeneration s)
      then s\<lparr>m_gCostGeneration := (m_gCostGeneration s)[nat index := generation],
             m_gCostValues := (m_gCostValues s)[nat index := cost]\<rparr>
      else s)"

definition hasParent :: "pathfinding \<Rightarrow> int \<Rightarrow> 32 word \<Rightarrow> bool" where
  "hasParent s index generation =
     (index \<ge> 0 \<and> nat index < length (m_parentGeneration s) \<and>
      m_parentGeneration s ! nat index = generation)"

definition getParent :: "pathfinding \<Rightarrow> int \<Rightarrow> 32 word \<Rightarrow> int" where
  "getParent s index generation =
     (if hasParent s index generation then m_parentValues s ! nat index else - 1)"

definition setParent :: "pathfinding \<Rightarrow> int \<Rightarrow> 32 word \<Rightarrow> int \<Rightarrow> pathfinding" where
  "setParent s index generation parentIndex =
     (if index \<ge> 0 \<and> nat index < length (m_parentGeneration s)
      then s\<lparr>m_parentGeneration := (m_parentGeneration s)[nat index := generation],
             m_parentValues := (m_parentValues s)[nat index := parentIndex]\<rparr>
      else s)"

section \<open>Open list: a binary min-heap in a vector\<close>

definition heapLess :: "QueueNode \<Rightarrow> QueueNode \<Rightarrow> bool" where
  "heapLess lhs rhs =
     (if fCost lhs \<noteq> fCost rhs then fCost lhs < fCost rhs else gCost lhs < gCost rhs)"

definition swap_nodes :: "QueueNode list \<Rightarrow> nat \<Rightarrow> nat \<Rightarrow> QueueNode list" where
  "swap_nodes h i j = h[i := h ! j, j := h ! i]"

function sift_up :: "QueueNode list \<Rightarrow> nat \<Rightarrow> QueueNode list" where
  "sift_up h i =
     (if i > 0
      then (if heapLess (h ! ((i - 1) div 2)) (h ! i) then h
            else sift_up (swap_nodes h ((i - 1) div 2) i) ((i - 1) div 2))
      else h)"
  by pat_completeness auto
termination
  by (relation "measure snd") auto

definition pushOpenNode :: "pathfinding \<Rightarrow> QueueNode \<Rightarrow> pathfinding" where
  "pushOpenNode s node =
     (let h = m_openHeap s @ [node]
      in s\<lparr>m_openHeap := sift_up h (length h - 1)\<rparr>)"

definition smallest_of :: "QueueNode list \<Rightarrow> nat \<Rightarrow> nat" where
  "smallest_of h i =
     (let size = length h;
          left = i * 2 + 1;
          right = left + 1;
          smallest = i;
          smallest = (if left < size \<and> \<not> heapLess (h ! smallest) (h ! left) then left else smallest);
          smallest = (if right < size \<and> \<not> heapLess (h ! smallest) (h ! right) then right else smallest)
      in smallest)"

lemma smallest_of_cases:
  "smallest_of h i = i \<or> (i < smallest_of h i \<and> smallest_of h i < length h)"
  by (auto simp: smallest_of_def Let_def)

lemma length_swap_nodes [simp]: "length (swap_nodes h i j) = length h"
  by (simp add: swap_nodes_def)

function sift_down :: "QueueNode list \<Rightarrow> nat \<Rightarrow> QueueNode list" where
  "sift_down h i =
     (if smallest_of h i = i then h
      else sift_down (swap_nodes h i (smallest_of h i)) (smallest_of h i))"
  by pat_completeness auto
termination
proof (relation "measure (\<lambda>(h, i). length h - i)")
  show "wf (measure (\<lambda>(h, i). length h - i))" by simp
next
  fix h :: "QueueNode list" and i :: nat
  assume "smallest_of h i \<noteq> i"
  with smallest_of_cases [of h i]
  have "i < smallest_of h i" "smallest_of h i < length h" by auto
  then show "((swap_nodes h i (smallest_of h i), smallest_of h i), (h, i))
      \<in> measure (\<lambda>(h, i). length h - i)"
    by simp
qed

text \<open>
  \<^verbatim>\<open>popOpenNode\<close> reads \<^verbatim>\<open>front()\<close> and \<^verbatim>\<open>back()\<close>, which are undefined on an empty
  vector: the model returns \<open>None\<close> there.  The search only pops a non-empty heap.
\<close>

definition popOpenNode :: "pathfinding \<Rightarrow> (QueueNode \<times> pathfinding) option" where
  "popOpenNode s =
     (case m_openHeap s of
        [] \<Rightarrow> None
      | top_node # _ \<Rightarrow>
          (let last_node = last (m_openHeap s);
               h = butlast (m_openHeap s)
           in if h \<noteq> [] then Some (top_node, s\<lparr>m_openHeap := sift_down (h[0 := last_node]) 0\<rparr>)
              else Some (top_node, s\<lparr>m_openHeap := h\<rparr>)))"

section \<open>Search engine\<close>

definition calculateHeuristic :: "Point \<Rightarrow> Point \<Rightarrow> int" where
  "calculateHeuristic a b = \<bar>px a - px b\<bar> + \<bar>py a - py b\<bar>"

definition neighbor_candidate :: "pathfinding \<Rightarrow> Point \<Rightarrow> int \<Rightarrow> int \<Rightarrow> Point list" where
  "neighbor_candidate s point dx dy =
     (if dx = 0 \<and> dy = 0 then []
      else let x = px point + dx; y = py point + dy
           in if x < 0 \<or> x \<ge> m_width s \<or> y < 0 \<or> y \<ge> m_height s then []
              else if dx \<noteq> 0 \<and> dy \<noteq> 0 \<and>
                      (\<not> isWalkable s (px point + dx) (py point) \<or>
                       \<not> isWalkable s (px point) (py point + dy)) then []
              else [Point x y])"

definition collectNeighbors :: "pathfinding \<Rightarrow> Point \<Rightarrow> Point list" where
  "collectNeighbors s point =
     concat (map (\<lambda>dx. concat (map (\<lambda>dy. neighbor_candidate s point dx dy) [- 1, 0, 1]))
                 [- 1, 0, 1])"

text \<open>
  The loop of \<^verbatim>\<open>buildPath\<close> follows parent links while \<^verbatim>\<open>current >= 0\<close>; nothing in
  the function itself bounds it (a cyclic chain of links would never leave it), so it is a
  partial function and its not returning is the value \<open>None\<close>.
\<close>

partial_function (option) buildPath_loop ::
    "pathfinding \<Rightarrow> int \<Rightarrow> 32 word \<Rightarrow> int \<Rightarrow> Point list \<Rightarrow> Point list option" where
  "buildPath_loop s startIndex generation current outPath =
     (if current \<ge> 0
      then (if current = startIndex then Some (rev (outPath @ [toPoint s current]))
            else if \<not> hasParent s current generation then Some []
            else if getParent s current generation = current \<or> getParent s current generation < 0
                 then Some []
            else buildPath_loop s startIndex generation (getParent s current generation)
                   (outPath @ [toPoint s current]))
      else Some [])"

declare buildPath_loop.simps [code]

definition buildPath :: "pathfinding \<Rightarrow> int \<Rightarrow> int \<Rightarrow> 32 word \<Rightarrow> int \<Rightarrow> Point list option" where
  "buildPath s startIndex endIndex generation expectedLength =
     buildPath_loop s startIndex generation endIndex []"

text \<open>The loop over the collected neighbours of the node being expanded.\<close>

fun relax_neighbors :: "pathfinding \<Rightarrow> QueueNode \<Rightarrow> Point \<Rightarrow> 32 word \<Rightarrow> Point list \<Rightarrow> pathfinding" where
  "relax_neighbors s current end generation [] = s"
| "relax_neighbors s current end generation (neighbor # rest) =
     (if \<not> isWalkable s (px neighbor) (py neighbor)
      then relax_neighbors s current end generation rest
      else if isClosed s (toIndex s neighbor) generation
      then relax_neighbors s current end generation rest
      else if gCost current + 1 \<ge> getGCost s (toIndex s neighbor) generation
      then relax_neighbors s current end generation rest
      else relax_neighbors
             (pushOpenNode
                (setParent (setGCost s (toIndex s neighbor) generation (gCost current + 1))
                   (toIndex s neighbor) generation (node_index current))
                (QueueNode (toIndex s neighbor)
                   (gCost current + 1 + calculateHeuristic neighbor end) (gCost current + 1)))
             current end generation rest)"

text \<open>
  One iteration of the main loop after \<^verbatim>\<open>++iterations\<close>: the new state, and the final
  cost when the iteration leaves the loop through \<^verbatim>\<open>break\<close>.
\<close>

definition search_body :: "pathfinding \<Rightarrow> int \<Rightarrow> Point \<Rightarrow> 32 word \<Rightarrow> pathfinding \<times> int option" where
  "search_body s end_idx end generation =
     (case popOpenNode s of
        None \<Rightarrow> (s, None)
      | Some (current, s1) \<Rightarrow>
          if gCost current > getGCost s1 (node_index current) generation then (s1, None)
          else if isClosed s1 (node_index current) generation then (s1, None)
          else let s2 = setClosed s1 (node_index current) generation
               in if node_index current = end_idx then (s2, Some (gCost current))
                  else (relax_neighbors s2 current end generation
                          (collectNeighbors s2 (toPoint s2 (node_index current))), None))"

text \<open>
  The main loop; the result is the state, the value of \<^verbatim>\<open>iterations\<close> and the value
  of \<^verbatim>\<open>final_cost\<close> when the loop is left.
\<close>

function search_loop :: "pathfinding \<Rightarrow> int \<Rightarrow> Point \<Rightarrow> 32 word \<Rightarrow> int \<Rightarrow> int \<Rightarrow>
    pathfinding \<times> int \<times> int" where
  "search_loop s end_idx end generation max_iterations iterations =
     (if m_openHeap s \<noteq> [] \<and> iterations < max_iterations
      then (case search_body s end_idx end generation of
              (s', Some final_cost) \<Rightarrow> (s', iterations + 1, final_cost)
            | (s', None) \<Rightarrow> search_loop s' end_idx end generation max_iterations (iterations + 1))
      else (s, iterations, - 1))"
  by pat_completeness auto
termination
  by (relation "measure (\<lambda>(s, end_idx, end, generation, max_iterations, iterations).
        nat (max_iterations - iterations))") auto

text \<open>
  \<^verbatim>\<open>findPathInternal\<close>.  Besides the returned path the model gives the final value of the
  local counter \<^verbatim>\<open>iterations\<close> (0 when the loop is not reached) and the engine state.
\<close>

definition findPathInternal :: "pathfinding \<Rightarrow> Point \<Rightarrow> Point \<Rightarrow> (Point list \<times> int \<times> pathfinding) option" where
  "findPathInternal s0 start end =
     (let s = ensureWorkingBuffers s0
      in if \<not> isWalkable s (px start) (py start) \<or> \<not> isWalkable s (px end) (py end)
         then Some ([], 0, s)
         else if toIndex s start = toIndex s end then Some ([start], 0, s)
         else (case nextGeneration s of (generation, s1) \<Rightarrow>
           (let s2 = s1\<lparr>m_openHeap := []\<rparr>;
                s3 = setGCost s2 (toIndex s start) generation 0;
                s4 = setParent s3 (toIndex s start) generation (toIndex s start);
                s5 = pushOpenNode s4 (QueueNode (toIndex s start) (calculateHeuristic start end) 0);
                max_iterations = max (m_width s * m_height s) 1
            in (case search_loop s5 (toIndex s end) end generation max_iterations 0 of
                  (s6, iterations, final_cost) \<Rightarrow>
                    if final_cost < 0 then Some ([], iterations, s6)
                    else map_option (\<lambda>path. (path, iterations, s6))
                           (buildPath s6 (toIndex s start) (toIndex s end) generation
                              (final_cost + 1))))))"

section \<open>Synchronous facade and result queue\<close>

definition findPath :: "pathfinding \<Rightarrow> terrain_service \<Rightarrow> (int \<times> int) list list \<Rightarrow> Point \<Rightarrow> Point \<Rightarrow>
    (Point list \<times> int \<times> pathfinding) option" where
  "findPath s t buildings start end =
     (let s1 = (if m_obstaclesDirty s then updateBuildingObstacles s t buildings else s)
      in findPathInternal s1 start end)"

fun fetch_loop :: "(64 word \<times> Point list) list \<Rightarrow> (64 word \<times> Point list) list \<Rightarrow>
    (64 word \<times> Point list) list \<times> (64 word \<times> Point list) list" where
  "fetch_loop results [] = (results, [])"
| "fetch_loop results (front # queue) = fetch_loop (results @ [front]) queue"

definition fetchCompletedPaths :: "pathfinding \<Rightarrow> (64 word \<times> Point list) list \<times> pathfinding" where
  "fetchCompletedPaths s =
     (case fetch_loop [] (m_resultQueue s) of
        (results, queue) \<Rightarrow> (results, s\<lparr>m_resultQueue := queue\<rparr>))"

text \<open>
  The constructor (without the worker thread it starts).  The initial values of the
  generation counter and of the grid offset are set in the header, which is not among
  the sources; they are taken as 0.  Any initial counter value would do for what
  follows, since the scratch arrays start with all stamps 0.
\<close>

definition Pathfinding :: "int \<Rightarrow> int \<Rightarrow> pathfinding" where
  "Pathfinding width height =
     ensureWorkingBuffers
       \<lparr>m_width = width, m_height = height,
        m_obstacles = replicate (nat height) (replicate (nat width) 0),
        m_obstaclesDirty = True,
        m_gridOffsetX = 0, m_gridOffsetZ = 0,
        m_closedGeneration = [], m_gCostGeneration = [], m_gCostValues = [],
        m_parentGeneration = [], m_parentValues = [],
        m_generationCounter = 0, m_openHeap = [], m_resultQueue = []\<rparr>"

section \<open>Well-formedness of engine states\<close>

text \<open>
  The constructor sizes the obstacle grid to \<open>height\<close> rows of \<open>width\<close> cells, and
  nothing resizes it afterwards.
\<close>

text \<open>The number of cells, to which \<^verbatim>\<open>ensureWorkingBuffers\<close> sizes the scratch arrays.\<close>

definition total_cells :: "pathfinding \<Rightarrow> nat" where
  "total_cells s = nat (m_width s) * nat (m_height s)"

definition grid_ok :: "pathfinding \<Rightarrow> bool" where
  "grid_ok s \<longleftrightarrow>
     0 \<le> m_width s \<and> 0 \<le> m_height s \<and>
     length (m_obstacles s) = nat (m_height s) \<and>
     (\<forall>row \<in> set (m_obstacles s). length row = nat (m_width s))"

definition scratch_ok :: "pathfinding \<Rightarrow> bool" where
  "scratch_ok s \<longleftrightarrow>
     length (m_gCostGeneration s) = length (m_closedGeneration s) \<and>
     length (m_gCostValues s) = length (m_closedGeneration s) \<and>
     length (m_parentGeneration s) = length (m_closedGeneration s) \<and>
     length (m_parentValues s) = length (m_closedGeneration s) \<and>
     (\<forall>g \<in> set (m_closedGeneration s). g \<le> m_generationCounter s) \<and>
     (\<forall>g \<in> set (m_gCostGeneration s). g \<le> m_generationCounter s) \<and>
     (\<forall>g \<in> set (m_parentGeneration s). g \<le> m_generationCounter s)"

definition same_grid :: "pathfinding \<Rightarrow> pathfinding \<Rightarrow> bool" where
  "same_grid s s' \<longleftrightarrow>
     m_width s' = m_width s \<and> m_height s' = m_height s \<and>
     m_obstacles s' = m_obstacles s \<and> m_obstaclesDirty s' = m_obstaclesDirty s \<and>
     m_gridOffsetX s' = m_gridOffsetX s \<and> m_gridOffsetZ s' = m_gridOffsetZ s \<and>
     m_resultQueue s' = m_resultQueue s"

text \<open>The search never resizes the scratch arrays nor touches the generation counter.\<close>

definition same_shape :: "pathfinding \<Rightarrow> pathfinding \<Rightarrow> bool" where
  "same_shape s s' \<longleftrightarrow>
     length (m_closedGeneration s') = length (m_closedGeneration s) \<and>
     length (m_gCostGeneration s') = length (m_gCostGeneration s) \<and>
     length (m_gCostValues s') = length (m_gCostValues s) \<and>
     length (m_parentGeneration s') = length (m_parentGeneration s) \<and>
     length (m_parentValues s') = length (m_parentValues s) \<and>
     m_generationCounter s' = m_generationCounter s"

section \<open>Routes and the invariant of the main loop\<close>

text \<open>
  A move the search admits: \<open>b\<close> is among the neighbours collected for \<open>a\<close> (inside the
  grid, and for a diagonal move both flanking cells walkable) and is itself walkable.
  A route is a list of points whose consecutive elements are such moves.
\<close>

definition step_ok :: "pathfinding \<Rightarrow> Point \<Rightarrow> Point \<Rightarrow> bool" where
  "step_ok s a b \<longleftrightarrow> b \<in> set (collectNeighbors s a) \<and> isWalkable s (px b) (py b)"

fun route_ok :: "pathfinding \<Rightarrow> Point list \<Rightarrow> bool" where
  "route_ok s [] = True"
| "route_ok s [p] = True"
| "route_ok s (a # b # rest) = (step_ok s a b \<and> route_ok s (b # rest))"

text \<open>Two distinct cells that touch by an edge or a corner.\<close>

definition adjacent8 :: "Point \<Rightarrow> Point \<Rightarrow> bool" where
  "adjacent8 a b \<longleftrightarrow> a \<noteq> b \<and> \<bar>px a - px b\<bar> \<le> 1 \<and> \<bar>py a - py b\<bar> \<le> 1"

text \<open>
  The invariant of the main loop for generation \<open>g\<close> and start index \<open>si\<close>: the five
  scratch arrays have one entry per cell; every parent link stamped \<open>g\<close> (the start's
  own apart) is an admitted move from the parent to the cell, and the parent's cost is
  below the cell's; costs are not negative; and no heap entry undercuts the cost stored
  for its cell.
\<close>

definition search_inv :: "pathfinding \<Rightarrow> 32 word \<Rightarrow> int \<Rightarrow> bool" where
  "search_inv s g si \<longleftrightarrow>
     length (m_closedGeneration s) = total_cells s \<and>
     length (m_gCostGeneration s) = total_cells s \<and>
     length (m_gCostValues s) = total_cells s \<and>
     length (m_parentGeneration s) = total_cells s \<and>
     length (m_parentValues s) = total_cells s \<and>
     (\<forall>c. hasParent s c g \<and> c \<noteq> si \<longrightarrow>
        step_ok s (toPoint s (getParent s c g)) (toPoint s c) \<and>
        getGCost s (getParent s c g) g < getGCost s c g) \<and>
     (\<forall>i. 0 \<le> getGCost s i g) \<and>
     (\<forall>n \<in> set (m_openHeap s). getGCost s (node_index n) g \<le> gCost n)"

text \<open>
  Heap entries and parent links: every open entry belongs to a cell that has a parent
  link of the generation, and so has the parent of every linked cell but the start.
\<close>

definition links_inv :: "pathfinding \<Rightarrow> 32 word \<Rightarrow> int \<Rightarrow> bool" where
  "links_inv s g si \<longleftrightarrow>
     (\<forall>n \<in> set (m_openHeap s). hasParent s (node_index n) g) \<and>
     (\<forall>c. hasParent s c g \<and> c \<noteq> si \<longrightarrow> hasParent s (getParent s c g) g)"

text \<open>
  A cell with a finite cost is closed or has a heap entry that is not superseded; and
  every admitted move out of a closed cell leads to a cell that is closed or has a finite
  cost.
\<close>

definition open_ok :: "pathfinding \<Rightarrow> 32 word \<Rightarrow> bool" where
  "open_ok s g \<longleftrightarrow>
     (\<forall>i. getGCost s i g < INT_MAX \<longrightarrow>
        isClosed s i g \<or>
        (\<exists>n \<in> set (m_openHeap s). node_index n = i \<and> gCost n \<le> getGCost s i g))"

definition closed_ok :: "pathfinding \<Rightarrow> 32 word \<Rightarrow> bool" where
  "closed_ok s g \<longleftrightarrow>
     (\<forall>c q. isClosed s c g \<and> step_ok s (toPoint s c) q \<longrightarrow>
        isClosed s (toIndex s q) g \<or> getGCost s (toIndex s q) g < INT_MAX)"

text \<open>
  The invariant of the main loop while the end cell \<open>ei\<close> has not been closed, after \<open>k\<close>
  iterations: no cost in the heap exceeds \<open>k\<close>.
\<close>

definition frontier_inv :: "pathfinding \<Rightarrow> 32 word \<Rightarrow> int \<Rightarrow> int \<Rightarrow> int \<Rightarrow> bool" where
  "frontier_inv s g si ei k \<longleftrightarrow>
     getGCost s si g < INT_MAX \<and> \<not> isClosed s ei g \<and>
     (\<forall>n \<in> set (m_openHeap s). gCost n \<le> k) \<and> open_ok s g \<and> closed_ok s g"

section \<open>Reference breadth-first search\<close>

text \<open>
  The reference the spec compares with, in the spec's words "an independent
  breadth-first search over the same walkability grid" under unit move cost.  A move
  goes from a cell to a walkable 8-neighbour, a diagonal one only between walkable
  flanking cells.  The search proceeds level by level; \<open>visited\<close> holds the cells of
  earlier levels and \<open>d\<close> is the number of moves to the cells of \<open>frontier\<close>.
\<close>

definition walkable_moves :: "pathfinding \<Rightarrow> Point \<Rightarrow> Point list" where
  "walkable_moves s p = filter (\<lambda>q. isWalkable s (px q) (py q)) (collectNeighbors s p)"

fun bfs_levels :: "pathfinding \<Rightarrow> Point \<Rightarrow> nat \<Rightarrow> Point list \<Rightarrow> Point list \<Rightarrow> nat \<Rightarrow> nat option" where
  "bfs_levels s goal 0 visited frontier d = (if goal \<in> set frontier then Some d else None)"
| "bfs_levels s goal (Suc fuel) visited frontier d =
     (if goal \<in> set frontier then Some d
      else if frontier = [] then None
      else bfs_levels s goal fuel (visited @ frontier)
             (remdups (filter (\<lambda>q. q \<notin> set (visited @ frontier))
                        (concat (map (walkable_moves s) frontier))))
             (Suc d))"

definition bfs_distance :: "pathfinding \<Rightarrow> Point \<Rightarrow> Point \<Rightarrow> nat option" where
  "bfs_distance s start goal =
     (if isWalkable s (px start) (py start) \<and> isWalkable s (px goal) (py goal)
      then bfs_levels s goal (total_cells s) [] [start] 0
      else None)"

text \<open>\<open>p\<close> is reached from \<open>start\<close> by a route of exactly \<open>k\<close> moves.\<close>

definition reach :: "pathfinding \<Rightarrow> Point \<Rightarrow> nat \<Rightarrow> Point \<Rightarrow> bool" where
  "reach s start k p \<longleftrightarrow>
     (\<exists>ps. hd ps = start \<and> last ps = p \<and> route_ok s ps \<and> length ps = Suc k)"

section \<open>Vocabulary for the scratch store and the rebuild\<close>

text \<open>
  The writes a search makes to the scratch store, all stamped with the generation of the
  search: \<^verbatim>\<open>setGCost(index, g, cost)\<close>, \<^verbatim>\<open>setParent(index, g, parent)\<close> and
  \<^verbatim>\<open>setClosed(index, g)\<close>.
\<close>

datatype scratch_write = SetGCost int int | SetParent int int | SetClosed int

fun apply_write :: "32 word \<Rightarrow> scratch_write \<Rightarrow> pathfinding \<Rightarrow> pathfinding" where
  "apply_write g (SetGCost i c) s = setGCost s i g c"
| "apply_write g (SetParent i p) s = setParent s i g p"
| "apply_write g (SetClosed i) s = setClosed s i g"

definition apply_writes :: "32 word \<Rightarrow> scratch_write list \<Rightarrow> pathfinding \<Rightarrow> pathfinding" where
  "apply_writes g ws s = fold (apply_write g) ws s"

text \<open>A grid of \<open>h\<close> rows of \<open>w\<close> cells.\<close>

definition rect :: "8 word list list \<Rightarrow> nat \<Rightarrow> nat \<Rightarrow> bool" where
  "rect obs h w \<longleftrightarrow> length obs = h \<and> (\<forall>row \<in> set obs. length row = w)"

text \<open>What the terrain pass decides for a cell.\<close>

definition terrain_blocks :: "terrain_service \<Rightarrow> int \<Rightarrow> int \<Rightarrow> bool" where
  "terrain_blocks t x z \<longleftrightarrow>
     \<not> (x < terrain_width t \<and> z < terrain_height t) \<or> \<not> ts_isWalkable t x z"

section \<open>Example inputs\<close>

text \<open>Example inputs: a terrain service that was never initialised.\<close>

definition no_terrain :: terrain_service where
  "no_terrain = \<lparr>ts_isInitialized = False, ts_heightMap = None, ts_isWalkable = (\<lambda>x z. True)\<rparr>"

text \<open>Example input: an engine whose generation counter has reached \<open>2\<^sup>3\<^sup>2 - 1\<close>.\<close>

definition wrapping_engine :: pathfinding where
  "wrapping_engine =
     (Pathfinding 2 1)\<lparr>m_generationCounter := 4294967295,
       m_closedGeneration := [7, 4294967295], m_gCostGeneration := [4294967295, 3],
       m_gCostValues := [4, 2], m_parentGeneration := [4294967295, 4294967295],
       m_parentValues := [0, 0]\<rparr>"

text \<open>
  Example input: an initialised terrain service whose height map covers only the column
  \<open>x = 0\<close> of two rows, and is walkable in the row \<open>z = 0\<close>.
\<close>

definition strip_terrain :: terrain_service where
  "strip_terrain = \<lparr>ts_isInitialized = True, ts_heightMap = Some (1, 2),
     ts_isWalkable = (\<lambda>x z. z = 0)\<rparr>"

section \<open>Verification\<close>

declare sift_up.simps [simp del]

declare sift_down.simps [simp del]

declare search_loop.simps [simp del]

lemma same_grid_refl [simp]: "same_grid s s"
  by (simp add: same_grid_def)

lemma same_grid_trans: "same_grid s s' \<Longrightarrow> same_grid s' s'' \<Longrightarrow> same_grid s s''"
  by (simp add: same_grid_def)

lemma same_grid_isWalkable: "same_grid s s' \<Longrightarrow> isWalkable s' x y = isWalkable s x y"
  by (simp add: same_grid_def isWalkable_def)

lemma same_grid_toIndex: "same_grid s s' \<Longrightarrow> toIndex s' p = toIndex s p"
  by (simp add: same_grid_def toIndex_def)

lemma same_grid_toPoint: "same_grid s s' \<Longrightarrow> toPoint s' i = toPoint s i"
  by (simp add: same_grid_def toPoint_def)

lemma same_grid_total_cells: "same_grid s s' \<Longrightarrow> total_cells s' = total_cells s"
  by (simp add: same_grid_def total_cells_def)

lemma same_grid_neighbor_candidate:
  assumes "same_grid s s'"
  shows "neighbor_candidate s' p dx dy = neighbor_candidate s p dx dy"
proof -
  have w: "m_width s' = m_width s" "m_height s' = m_height s"
    using assms by (simp_all add: same_grid_def)
  show ?thesis
    by (simp add: neighbor_candidate_def Let_def same_grid_isWalkable [OF assms] w)
qed

lemma same_grid_collectNeighbors:
  "same_grid s s' \<Longrightarrow> collectNeighbors s' p = collectNeighbors s p"
  by (simp add: collectNeighbors_def same_grid_neighbor_candidate)

lemma same_grid_ensureWorkingBuffers [simp]: "same_grid s (ensureWorkingBuffers s)"
  by (simp add: same_grid_def ensureWorkingBuffers_def Let_def)

lemma same_grid_setClosed [simp]: "same_grid s (setClosed s i g)"
  by (simp add: same_grid_def setClosed_def)

lemma same_grid_setGCost [simp]: "same_grid s (setGCost s i g c)"
  by (simp add: same_grid_def setGCost_def)

lemma same_grid_setParent [simp]: "same_grid s (setParent s i g p)"
  by (simp add: same_grid_def setParent_def)

lemma same_grid_pushOpenNode [simp]: "same_grid s (pushOpenNode s n)"
  by (simp add: same_grid_def pushOpenNode_def Let_def)

lemma same_grid_popOpenNode: "popOpenNode s = Some (n, s') \<Longrightarrow> same_grid s s'"
  by (auto simp: same_grid_def popOpenNode_def Let_def split: list.splits if_splits)

lemma same_grid_nextGeneration: "nextGeneration s = (g, s') \<Longrightarrow> same_grid s s'"
  by (auto simp: same_grid_def nextGeneration_def resetGenerations_def Let_def split: if_splits)

lemma same_grid_relax_neighbors: "same_grid s (relax_neighbors s cur e g ns)"
proof (induction ns arbitrary: s)
  case Nil
  show ?case by simp
next
  case (Cons n ns)
  let ?s' = "pushOpenNode
                (setParent (setGCost s (toIndex s n) g (gCost cur + 1))
                   (toIndex s n) g (node_index cur))
                (QueueNode (toIndex s n)
                   (gCost cur + 1 + calculateHeuristic n e) (gCost cur + 1))"
  have "same_grid s ?s'"
    by (meson same_grid_trans same_grid_setGCost same_grid_setParent same_grid_pushOpenNode)
  with Cons.IH [of ?s'] Cons.IH [of s] show ?case
    by (auto intro: same_grid_trans)
qed

lemma same_grid_search_body: "search_body s ei e g = (s', r) \<Longrightarrow> same_grid s s'"
  by (auto simp: search_body_def Let_def split: option.splits if_splits prod.splits
      dest!: same_grid_popOpenNode
      intro: same_grid_trans [OF _ same_grid_setClosed]
             same_grid_trans [OF same_grid_trans [OF _ same_grid_setClosed] same_grid_relax_neighbors])

lemma same_grid_search_loop:
  "search_loop s ei e g mx it = (s', it', fc) \<Longrightarrow> same_grid s s'"
proof (induction s ei e g mx it arbitrary: s' it' fc rule: search_loop.induct)
  case (1 s ei e g mx it)
  show ?case
  proof (cases "m_openHeap s \<noteq> [] \<and> it < mx")
    case False
    with "1.prems" show ?thesis by (simp add: search_loop.simps)
  next
    case True
    obtain s1 r where body: "search_body s ei e g = (s1, r)" by (cases "search_body s ei e g")
    then have sg: "same_grid s s1" by (rule same_grid_search_body)
    show ?thesis
    proof (cases r)
      case None
      with True body "1.prems" have "search_loop s1 ei e g mx (it + 1) = (s', it', fc)"
        by (simp add: search_loop.simps [of s])
      with "1.IH" [OF True body [symmetric] None] have "same_grid s1 s'" by simp
      with sg show ?thesis by (rule same_grid_trans)
    next
      case (Some c)
      with True body "1.prems" have "s' = s1" by (simp add: search_loop.simps [of s])
      with sg show ?thesis by simp
    qed
  qed
qed

subsection \<open>The search leaves the grid alone\<close>

lemma same_grid_findPathInternal:
  assumes "findPathInternal s start end = Some (path, it, s')"
  shows "same_grid s s'"
proof -
  let ?s = "ensureWorkingBuffers s"
  have e: "same_grid s ?s" by simp
  show ?thesis
  proof (cases "\<not> isWalkable ?s (px start) (py start) \<or> \<not> isWalkable ?s (px end) (py end)")
    case True
    with assms have "s' = ?s" by (auto simp: findPathInternal_def Let_def)
    then show ?thesis by simp
  next
    case walk: False
    show ?thesis
    proof (cases "toIndex ?s start = toIndex ?s end")
      case True
      with walk assms have "s' = ?s" by (auto simp: findPathInternal_def Let_def)
      then show ?thesis by simp
    next
      case False
      obtain g s1 where ng: "nextGeneration ?s = (g, s1)" by (cases "nextGeneration ?s")
      let ?s5 = "pushOpenNode
          (setParent (setGCost (s1\<lparr>m_openHeap := []\<rparr>) (toIndex ?s start) g 0)
             (toIndex ?s start) g (toIndex ?s start))
          (QueueNode (toIndex ?s start) (calculateHeuristic start end) 0)"
      obtain s6 it6 fc where sl:
        "search_loop ?s5 (toIndex ?s end) end g (max (m_width ?s * m_height ?s) 1) 0 = (s6, it6, fc)"
        by (cases "search_loop ?s5 (toIndex ?s end) end g (max (m_width ?s * m_height ?s) 1) 0")
      from walk False ng sl assms have "s' = s6"
        by (auto simp: findPathInternal_def Let_def split: if_splits)
      moreover have "same_grid ?s s1" using ng by (rule same_grid_nextGeneration)
      moreover have "same_grid s1 (s1\<lparr>m_openHeap := []\<rparr>)" by (simp add: same_grid_def)
      moreover have "same_grid (s1\<lparr>m_openHeap := []\<rparr>) ?s5"
        by (meson same_grid_trans same_grid_setGCost same_grid_setParent same_grid_pushOpenNode)
      moreover have "same_grid ?s5 s6" using sl by (rule same_grid_search_loop)
      ultimately show ?thesis using e by (meson same_grid_trans)
    qed
  qed
qed

lemma isWalkable_ensureWorkingBuffers [simp]:
  "isWalkable (ensureWorkingBuffers s) x y = isWalkable s x y"
  by (rule same_grid_isWalkable) simp

lemma toIndex_ensureWorkingBuffers [simp]:
  "toIndex (ensureWorkingBuffers s) p = toIndex s p"
  by (rule same_grid_toIndex) simp

lemma updateBuildingObstacles_dims [simp]:
  "m_width (updateBuildingObstacles s t bs) = m_width s"
  "m_height (updateBuildingObstacles s t bs) = m_height s"
  by (simp_all add: updateBuildingObstacles_def Let_def)

lemma isWalkable_out_of_range:
  "x < 0 \<or> x \<ge> m_width s \<or> y < 0 \<or> y \<ge> m_height s \<Longrightarrow> \<not> isWalkable s x y"
  by (auto simp: isWalkable_def)

lemma findPathInternal_unwalkable:
  "\<not> isWalkable s (px start) (py start) \<or> \<not> isWalkable s (px end) (py end) \<Longrightarrow>
   findPathInternal s start end = Some ([], 0, ensureWorkingBuffers s)"
  by (auto simp: findPathInternal_def Let_def)

lemma findPathInternal_same_point:
  "isWalkable s (px p) (py p) \<Longrightarrow> findPathInternal s p p = Some ([p], 0, ensureWorkingBuffers s)"
  by (simp add: findPathInternal_def Let_def)

subsection \<open>The result queue\<close>

lemma fetch_loop_append: "fetch_loop results queue = (results @ queue, [])"
  by (induction queue arbitrary: results) simp_all

subsection \<open>Generations\<close>

lemma word32_le_not_succ:
  fixes c x :: "32 word"
  assumes "x \<le> c" and "c + 1 \<noteq> 0"
  shows "x \<noteq> c + 1"
  by (metis add_neg_numeral_special(8) assms(1,2) inc_less_eq_self_iff_eq)

lemma nextGeneration_overflow:
  assumes "m_generationCounter s + 1 = 0"
  shows "nextGeneration s =
     (1, s\<lparr>m_closedGeneration := replicate (length (m_closedGeneration s)) 0,
            m_gCostGeneration := replicate (length (m_gCostGeneration s)) 0,
            m_parentGeneration := replicate (length (m_parentGeneration s)) 0,
            m_gCostValues := replicate (length (m_gCostValues s)) INT_MAX,
            m_parentValues := replicate (length (m_parentValues s)) (- 1),
            m_generationCounter := 1\<rparr>)"
  using assms by (simp add: nextGeneration_def resetGenerations_def Let_def)

lemma nextGeneration_plain:
  assumes "m_generationCounter s + 1 \<noteq> 0"
  shows "nextGeneration s =
     (m_generationCounter s + 1, s\<lparr>m_generationCounter := m_generationCounter s + 1\<rparr>)"
  using assms by (simp add: nextGeneration_def Let_def)

lemma nextGeneration_result:
  assumes "nextGeneration s = (g, s')"
  shows "g \<noteq> 0" and "m_generationCounter s' = g"
    and "length (m_closedGeneration s') = length (m_closedGeneration s)"
    and "length (m_gCostGeneration s') = length (m_gCostGeneration s)"
    and "length (m_gCostValues s') = length (m_gCostValues s)"
    and "length (m_parentGeneration s') = length (m_parentGeneration s)"
    and "length (m_parentValues s') = length (m_parentValues s)"
  using assms
  by (cases "m_generationCounter s + 1 = 0";
      auto simp: nextGeneration_overflow nextGeneration_plain)+

lemma nextGeneration_fresh:
  assumes "scratch_ok s" and "nextGeneration s = (g, s')"
  shows "\<forall>x \<in> set (m_closedGeneration s'). x \<noteq> g"
    and "\<forall>x \<in> set (m_gCostGeneration s'). x \<noteq> g"
    and "\<forall>x \<in> set (m_parentGeneration s'). x \<noteq> g"
proof -
  show "\<forall>x \<in> set (m_closedGeneration s'). x \<noteq> g"
  proof (cases "m_generationCounter s + 1 = 0")
    case True
    with assms(2) show ?thesis by (auto simp: nextGeneration_overflow)
  next
    case False
    with assms show ?thesis
      by (auto simp: nextGeneration_plain scratch_ok_def dest: word32_le_not_succ)
  qed
  show "\<forall>x \<in> set (m_gCostGeneration s'). x \<noteq> g"
  proof (cases "m_generationCounter s + 1 = 0")
    case True
    with assms(2) show ?thesis by (auto simp: nextGeneration_overflow)
  next
    case False
    with assms show ?thesis
      by (auto simp: nextGeneration_plain scratch_ok_def dest: word32_le_not_succ)
  qed
  show "\<forall>x \<in> set (m_parentGeneration s'). x \<noteq> g"
  proof (cases "m_generationCounter s + 1 = 0")
    case True
    with assms(2) show ?thesis by (auto simp: nextGeneration_overflow)
  next
    case False
    with assms show ?thesis
      by (auto simp: nextGeneration_plain scratch_ok_def dest: word32_le_not_succ)
  qed
qed

lemma scratch_ok_nextGeneration:
  assumes "scratch_ok s" and "nextGeneration s = (g, s')"
  shows "scratch_ok s'"
proof (cases "m_generationCounter s + 1 = 0")
  case True
  with assms show ?thesis by (auto simp: nextGeneration_overflow scratch_ok_def)
next
  case False
  then have "m_generationCounter s \<le> m_generationCounter s + 1"
    by (metis add_neg_numeral_special(8) inc_less_eq_self_iff_eq linorder_linear)
  then have le: "x \<le> m_generationCounter s + 1" if "x \<le> m_generationCounter s" for x
    using that by (rule order_trans [rotated])
  from False assms show ?thesis
    by (auto simp: nextGeneration_plain scratch_ok_def intro!: le)
qed

text \<open>A cell that carries no stamp of generation \<open>g\<close> in the respective array.\<close>

lemma getGCost_unstamped:
  "\<not> (0 \<le> i \<and> nat i < length (m_gCostGeneration s) \<and> m_gCostGeneration s ! nat i = g) \<Longrightarrow>
   getGCost s i g = INT_MAX"
  by (auto simp: getGCost_def)

lemma gCost_stamp_apply_write:
  assumes "\<forall>c. w \<noteq> SetGCost i c"
  shows "(0 \<le> i \<and> nat i < length (m_gCostGeneration (apply_write g w s)) \<and>
          m_gCostGeneration (apply_write g w s) ! nat i = g) \<longleftrightarrow>
         (0 \<le> i \<and> nat i < length (m_gCostGeneration s) \<and> m_gCostGeneration s ! nat i = g)"
  using assms
  by (cases w) (auto simp: setGCost_def setParent_def setClosed_def nth_list_update)

lemma parent_stamp_apply_write:
  assumes "\<forall>p. w \<noteq> SetParent i p"
  shows "hasParent (apply_write g w s) i g = hasParent s i g"
  using assms
  by (cases w) (auto simp: hasParent_def setGCost_def setParent_def setClosed_def nth_list_update)

lemma closed_stamp_apply_write:
  assumes "w \<noteq> SetClosed i"
  shows "isClosed (apply_write g w s) i g = isClosed s i g"
  using assms
  by (cases w) (auto simp: isClosed_def setGCost_def setParent_def setClosed_def nth_list_update)

lemma gCost_stamp_apply_writes:
  assumes "\<forall>c. SetGCost i c \<notin> set ws"
  shows "(0 \<le> i \<and> nat i < length (m_gCostGeneration (apply_writes g ws s)) \<and>
          m_gCostGeneration (apply_writes g ws s) ! nat i = g) \<longleftrightarrow>
         (0 \<le> i \<and> nat i < length (m_gCostGeneration s) \<and> m_gCostGeneration s ! nat i = g)"
  using assms
proof (induction ws arbitrary: s)
  case Nil
  show ?case by (simp add: apply_writes_def)
next
  case (Cons w ws)
  from Cons.prems have w: "\<forall>c. w \<noteq> SetGCost i c" and ws: "\<forall>c. SetGCost i c \<notin> set ws"
    by auto
  have "apply_writes g (w # ws) s = apply_writes g ws (apply_write g w s)"
    by (simp add: apply_writes_def)
  with Cons.IH [OF ws, of "apply_write g w s"] gCost_stamp_apply_write [OF w, of g s]
  show ?case by simp
qed

lemma parent_stamp_apply_writes:
  assumes "\<forall>p. SetParent i p \<notin> set ws"
  shows "hasParent (apply_writes g ws s) i g = hasParent s i g"
  using assms
proof (induction ws arbitrary: s)
  case Nil
  show ?case by (simp add: apply_writes_def)
next
  case (Cons w ws)
  from Cons.prems have w: "\<forall>p. w \<noteq> SetParent i p" and ws: "\<forall>p. SetParent i p \<notin> set ws"
    by auto
  have "apply_writes g (w # ws) s = apply_writes g ws (apply_write g w s)"
    by (simp add: apply_writes_def)
  with Cons.IH [OF ws, of "apply_write g w s"] parent_stamp_apply_write [OF w, of g s]
  show ?case by simp
qed

lemma closed_stamp_apply_writes:
  assumes "SetClosed i \<notin> set ws"
  shows "isClosed (apply_writes g ws s) i g = isClosed s i g"
  using assms
proof (induction ws arbitrary: s)
  case Nil
  show ?case by (simp add: apply_writes_def)
next
  case (Cons w ws)
  from Cons.prems have w: "w \<noteq> SetClosed i" and ws: "SetClosed i \<notin> set ws"
    by auto
  have "apply_writes g (w # ws) s = apply_writes g ws (apply_write g w s)"
    by (simp add: apply_writes_def)
  with Cons.IH [OF ws, of "apply_write g w s"] closed_stamp_apply_write [OF w, of g s]
  show ?case by simp
qed

subsection \<open>Shape of the scratch store\<close>

lemma same_shape_refl [simp]: "same_shape s s"
  by (simp add: same_shape_def)

lemma same_shape_trans: "same_shape s s' \<Longrightarrow> same_shape s' s'' \<Longrightarrow> same_shape s s''"
  by (simp add: same_shape_def)

lemma same_shape_setClosed [simp]: "same_shape s (setClosed s i g)"
  by (simp add: same_shape_def setClosed_def)

lemma same_shape_setGCost [simp]: "same_shape s (setGCost s i g c)"
  by (simp add: same_shape_def setGCost_def)

lemma same_shape_setParent [simp]: "same_shape s (setParent s i g p)"
  by (simp add: same_shape_def setParent_def)

lemma same_shape_pushOpenNode [simp]: "same_shape s (pushOpenNode s n)"
  by (simp add: same_shape_def pushOpenNode_def Let_def)

lemma same_shape_popOpenNode: "popOpenNode s = Some (n, s') \<Longrightarrow> same_shape s s'"
  by (auto simp: same_shape_def popOpenNode_def Let_def split: list.splits if_splits)

lemma same_shape_relax_neighbors: "same_shape s (relax_neighbors s cur e g ns)"
proof (induction ns arbitrary: s)
  case Nil
  show ?case by simp
next
  case (Cons n ns)
  let ?s' = "pushOpenNode
                (setParent (setGCost s (toIndex s n) g (gCost cur + 1))
                   (toIndex s n) g (node_index cur))
                (QueueNode (toIndex s n)
                   (gCost cur + 1 + calculateHeuristic n e) (gCost cur + 1))"
  have "same_shape s ?s'"
    by (meson same_shape_trans same_shape_setGCost same_shape_setParent same_shape_pushOpenNode)
  with Cons.IH [of ?s'] Cons.IH [of s] show ?case
    by (auto intro: same_shape_trans)
qed

lemma same_shape_search_body: "search_body s ei e g = (s', r) \<Longrightarrow> same_shape s s'"
  by (auto simp: search_body_def Let_def split: option.splits if_splits prod.splits
      dest!: same_shape_popOpenNode
      intro: same_shape_trans [OF _ same_shape_setClosed]
             same_shape_trans [OF same_shape_trans [OF _ same_shape_setClosed] same_shape_relax_neighbors])

text \<open>
  What the main loop guarantees whatever the heap holds: the counter stays within the
  budget, and a non-negative final cost comes only from the \<^verbatim>\<open>break\<close>, right after the
  end cell was closed.
\<close>

lemma search_body_break_closed:
  assumes "search_body s ei e g = (s', Some fc)"
      and "0 \<le> ei" and "nat ei < length (m_closedGeneration s)"
  shows "isClosed s' ei g"
proof -
  from assms(1) obtain cur s1 where pop: "popOpenNode s = Some (cur, s1)"
    and s': "s' = setClosed s1 ei g"
    by (auto simp: search_body_def Let_def split: option.splits if_splits prod.splits)
  from same_shape_popOpenNode [OF pop] assms(3)
  have "nat ei < length (m_closedGeneration s1)" by (simp add: same_shape_def)
  with assms(2) s' show ?thesis by (simp add: isClosed_def setClosed_def)
qed

lemma search_loop_result:
  assumes "search_loop s ei e g mx it = (s', it', fc)"
      and "it \<le> mx" and "0 \<le> ei" and "nat ei < length (m_closedGeneration s)"
  shows "same_shape s s' \<and> it \<le> it' \<and> it' \<le> mx \<and> (0 \<le> fc \<longrightarrow> isClosed s' ei g)"
  using assms
proof (induction s ei e g mx it arbitrary: s' it' fc rule: search_loop.induct)
  case (1 s ei e g mx it)
  show ?case
  proof (cases "m_openHeap s \<noteq> [] \<and> it < mx")
    case False
    with "1.prems" show ?thesis by (simp add: search_loop.simps)
  next
    case True
    obtain s1 r where body: "search_body s ei e g = (s1, r)" by (cases "search_body s ei e g")
    then have sh: "same_shape s s1" by (rule same_shape_search_body)
    show ?thesis
    proof (cases r)
      case None
      with True body "1.prems"(1) have rec: "search_loop s1 ei e g mx (it + 1) = (s', it', fc)"
        by (simp add: search_loop.simps [of s])
      have len: "nat ei < length (m_closedGeneration s1)"
        using sh "1.prems"(4) by (simp add: same_shape_def)
      from True have "it + 1 \<le> mx" by simp
      from "1.IH" [OF True body [symmetric] None rec this "1.prems"(3) len] sh
      show ?thesis by (auto intro: same_shape_trans)
    next
      case (Some c)
      with True body "1.prems"(1) have eq: "s' = s1" "it' = it + 1" "fc = c"
        by (simp_all add: search_loop.simps [of s])
      from search_body_break_closed [OF body [unfolded Some] "1.prems"(3,4)] eq sh True
      show ?thesis by simp
    qed
  qed
qed

subsection \<open>Cell indices\<close>

lemma toIndex_toPoint [simp]: "toIndex s (toPoint s i) = i"
  by (simp add: toIndex_def toPoint_def)

lemma toPoint_toIndex:
  "0 \<le> px p \<Longrightarrow> px p < m_width s \<Longrightarrow> toPoint s (toIndex s p) = p"
  by (cases p) (simp add: toIndex_def toPoint_def)

lemma toIndex_range:
  assumes "0 \<le> px p" "px p < m_width s" "0 \<le> py p" "py p < m_height s"
  shows "0 \<le> toIndex s p" and "toIndex s p < m_width s * m_height s"
    and "nat (toIndex s p) < total_cells s"
proof -
  from assms show a: "0 \<le> toIndex s p" by (simp add: toIndex_def)
  have "py p + 1 \<le> m_height s" using assms by simp
  then have "(py p + 1) * m_width s \<le> m_height s * m_width s"
    using assms by (intro mult_right_mono) simp_all
  then show b: "toIndex s p < m_width s * m_height s"
    using assms by (simp add: toIndex_def algebra_simps)
  have "total_cells s = nat (m_width s * m_height s)"
    using assms by (simp add: total_cells_def nat_mult_distrib)
  with a b show "nat (toIndex s p) < total_cells s" by simp
qed

lemma isWalkable_in_grid:
  "isWalkable s x y \<Longrightarrow> 0 \<le> x \<and> x < m_width s \<and> 0 \<le> y \<and> y < m_height s"
  by (auto simp: isWalkable_def split: if_splits)

lemma ensureWorkingBuffers_length:
  "length (m_closedGeneration (ensureWorkingBuffers s)) = total_cells s"
  by (simp add: ensureWorkingBuffers_def Let_def total_cells_def)

subsection \<open>Anatomy of a query that reaches the main loop\<close>

lemma findPathInternal_searchE:
  assumes "findPathInternal s start dest = Some (path, it, s')"
      and "isWalkable s (px start) (py start)" and "isWalkable s (px dest) (py dest)"
      and "toIndex s start \<noteq> toIndex s dest"
  obtains g s1 fc where
    "nextGeneration (ensureWorkingBuffers s) = (g, s1)"
    "search_loop
       (pushOpenNode
          (setParent (setGCost (s1\<lparr>m_openHeap := []\<rparr>) (toIndex s start) g 0)
             (toIndex s start) g (toIndex s start))
          (QueueNode (toIndex s start) (calculateHeuristic start dest) 0))
       (toIndex s dest) dest g (max (m_width s * m_height s) 1) 0 = (s', it, fc)"
    "fc < 0 \<Longrightarrow> path = []"
    "0 \<le> fc \<Longrightarrow> buildPath s' (toIndex s start) (toIndex s dest) g (fc + 1) = Some path"
proof -
  let ?s = "ensureWorkingBuffers s"
  have dims: "m_width ?s = m_width s" "m_height ?s = m_height s"
    using same_grid_ensureWorkingBuffers [of s] by (simp_all add: same_grid_def)
  obtain g s1 where ng: "nextGeneration ?s = (g, s1)" by (cases "nextGeneration ?s")
  let ?s5 = "pushOpenNode
          (setParent (setGCost (s1\<lparr>m_openHeap := []\<rparr>) (toIndex s start) g 0)
             (toIndex s start) g (toIndex s start))
          (QueueNode (toIndex s start) (calculateHeuristic start dest) 0)"
  obtain s6 it6 fc where sl:
    "search_loop ?s5 (toIndex s dest) dest g (max (m_width s * m_height s) 1) 0 = (s6, it6, fc)"
    by (cases "search_loop ?s5 (toIndex s dest) dest g (max (m_width s * m_height s) 1) 0")
  from assms ng sl dims
  have r: "(fc < 0 \<longrightarrow> path = [] \<and> it6 = it \<and> s6 = s') \<and>
           (\<not> fc < 0 \<longrightarrow>
              buildPath s6 (toIndex s start) (toIndex s dest) g (fc + 1) = Some path \<and>
              it6 = it \<and> s6 = s')"
    by (auto simp: findPathInternal_def Let_def split: if_splits)
  then have eq: "s6 = s'" "it6 = it"
    by auto
  from r have a: "path = []" if "fc < 0" using that by simp
  from r eq have b: "buildPath s' (toIndex s start) (toIndex s dest) g (fc + 1) = Some path"
    if "0 \<le> fc" using that by auto
  from that [OF ng sl [unfolded eq] a b] show thesis by simp
qed

lemma findPath_iteration_count:
  assumes "findPath s t buildings start dest = Some (path, it, s')"
      and "0 \<le> m_width s" and "0 \<le> m_height s"
  shows "0 \<le> it \<and> it \<le> m_width s * m_height s \<and>
         (start \<noteq> dest \<and> \<not> isClosed s' (toIndex s' dest) (m_generationCounter s')
            \<longrightarrow> path = [])"
proof -
  let ?s1 = "if m_obstaclesDirty s then updateBuildingObstacles s t buildings else s"
  have dims: "m_width ?s1 = m_width s" "m_height ?s1 = m_height s" by simp_all
  from assms(1) have run: "findPathInternal ?s1 start dest = Some (path, it, s')"
    by (simp add: findPath_def Let_def)
  have nonneg: "0 \<le> m_width s * m_height s" using assms(2,3) by simp
  show ?thesis
  proof (cases "isWalkable ?s1 (px start) (py start) \<and> isWalkable ?s1 (px dest) (py dest)")
    case False
    with run nonneg show ?thesis by (auto simp: findPathInternal_def Let_def)
  next
    case walk: True
    note ws = isWalkable_in_grid [of ?s1 "px start" "py start"]
    note wd = isWalkable_in_grid [of ?s1 "px dest" "py dest"]
    show ?thesis
    proof (cases "toIndex ?s1 start = toIndex ?s1 dest")
      case True
      from True have "toPoint ?s1 (toIndex ?s1 start) = toPoint ?s1 (toIndex ?s1 dest)" by simp
      with walk ws wd have "start = dest" by (simp add: toPoint_toIndex)
      moreover from True walk run have "it = 0" by (simp add: findPathInternal_def Let_def)
      ultimately show ?thesis using nonneg by simp
    next
      case False
      from run walk False obtain g s2 fc where
        ng: "nextGeneration (ensureWorkingBuffers ?s1) = (g, s2)" and
        sl: "search_loop
          (pushOpenNode
            (setParent (setGCost (s2\<lparr>m_openHeap := []\<rparr>) (toIndex ?s1 start) g 0)
               (toIndex ?s1 start) g (toIndex ?s1 start))
            (QueueNode (toIndex ?s1 start) (calculateHeuristic start dest) 0))
          (toIndex ?s1 dest) dest g (max (m_width ?s1 * m_height ?s1) 1) 0 = (s', it, fc)" and
        neg: "fc < 0 \<Longrightarrow> path = []"
        by (elim findPathInternal_searchE [where s = ?s1]) simp_all
      let ?s5 = "pushOpenNode
            (setParent (setGCost (s2\<lparr>m_openHeap := []\<rparr>) (toIndex ?s1 start) g 0)
               (toIndex ?s1 start) g (toIndex ?s1 start))
            (QueueNode (toIndex ?s1 start) (calculateHeuristic start dest) 0)"
      have in_grid: "0 \<le> px dest" "px dest < m_width ?s1" "0 \<le> py dest" "py dest < m_height ?s1"
        using walk wd by simp_all
      note idx = toIndex_range [OF in_grid]
      have sh5: "same_shape s2 ?s5"
      proof -
        have "same_shape s2 (s2\<lparr>m_openHeap := []\<rparr>)" by (simp add: same_shape_def)
        then show ?thesis
          by (meson same_shape_trans same_shape_setGCost same_shape_setParent same_shape_pushOpenNode)
      qed
      have len: "length (m_closedGeneration ?s5) = total_cells ?s1"
        using sh5 nextGeneration_result(3) [OF ng] ensureWorkingBuffers_length [of ?s1]
        by (simp add: same_shape_def)
      have cnt: "m_generationCounter ?s5 = g"
        using sh5 nextGeneration_result(2) [OF ng] by (simp add: same_shape_def)
      have pos: "1 \<le> m_width ?s1 * m_height ?s1"
        using idx(1,2) by linarith
      have "same_shape ?s5 s' \<and> 0 \<le> it \<and> it \<le> max (m_width ?s1 * m_height ?s1) 1
            \<and> (0 \<le> fc \<longrightarrow> isClosed s' (toIndex ?s1 dest) g)"
        using idx(3) len by (intro search_loop_result [OF sl _ idx(1)]) simp_all
      moreover have "toIndex s' dest = toIndex ?s1 dest"
        using same_grid_findPathInternal [OF run] by (rule same_grid_toIndex)
      ultimately have "0 \<le> it" "it \<le> m_width ?s1 * m_height ?s1"
        "m_generationCounter s' = g" "0 \<le> fc \<longrightarrow> isClosed s' (toIndex s' dest) g"
        using pos cnt by (simp_all add: same_shape_def)
      with neg dims show ?thesis
        by (metis linorder_not_less)
    qed
  qed
qed

subsection \<open>Reads after writes\<close>

lemma nat_index_eq: "0 \<le> i \<Longrightarrow> 0 \<le> j \<Longrightarrow> nat j = nat i \<longleftrightarrow> j = i"
  by auto

lemma getGCost_setGCost:
  assumes "length (m_gCostValues s) = length (m_gCostGeneration s)"
  shows "getGCost (setGCost s i g c) j g' =
     (if j = i \<and> 0 \<le> i \<and> nat i < length (m_gCostGeneration s)
      then (if g' = g then c else INT_MAX)
      else getGCost s j g')"
proof (cases "0 \<le> i \<and> nat i < length (m_gCostGeneration s)")
  case False
  have "setGCost s i g c = s" unfolding setGCost_def by (rule if_not_P [OF False])
  with False show ?thesis by auto
next
  case True
  show ?thesis
  proof (cases "j = i")
    case True
    with \<open>0 \<le> i \<and> nat i < length (m_gCostGeneration s)\<close> assms show ?thesis
      by (simp add: getGCost_def setGCost_def)
  next
    case False
    show ?thesis
    proof (cases "0 \<le> j")
      case True
      with False \<open>0 \<le> i \<and> nat i < length (m_gCostGeneration s)\<close> show ?thesis
        by (simp add: getGCost_def setGCost_def nth_list_update nat_index_eq)
    next
      case False
      then show ?thesis by (simp add: getGCost_def)
    qed
  qed
qed

lemma getGCost_setParent [simp]: "getGCost (setParent s i g p) j g' = getGCost s j g'"
  by (simp add: getGCost_def setParent_def)

lemma getGCost_setClosed [simp]: "getGCost (setClosed s i g) j g' = getGCost s j g'"
  by (simp add: getGCost_def setClosed_def)

lemma getGCost_pushOpenNode [simp]: "getGCost (pushOpenNode s n) j g' = getGCost s j g'"
  by (simp add: getGCost_def pushOpenNode_def Let_def)

lemma popOpenNode_state:
  assumes "popOpenNode s = Some (n, s')"
  obtains h where "s' = s\<lparr>m_openHeap := h\<rparr>"
proof (cases "m_openHeap s")
  case Nil
  with assms show thesis by (simp add: popOpenNode_def)
next
  case (Cons a rest)
  with assms have "s' = s\<lparr>m_openHeap :=
      (if butlast (m_openHeap s) \<noteq> []
       then sift_down ((butlast (m_openHeap s))[0 := last (m_openHeap s)]) 0
       else butlast (m_openHeap s))\<rparr>"
    by (simp add: popOpenNode_def Let_def split: if_splits)
  then show thesis by (rule that)
qed

lemma getGCost_popOpenNode: "popOpenNode s = Some (n, s') \<Longrightarrow> getGCost s' j g' = getGCost s j g'"
  by (erule popOpenNode_state) (simp add: getGCost_def)

lemma hasParent_setParent:
  "hasParent (setParent s i g p) j g' =
     (if j = i \<and> 0 \<le> i \<and> nat i < length (m_parentGeneration s) then g' = g
      else hasParent s j g')"
proof (cases "0 \<le> i \<and> nat i < length (m_parentGeneration s)")
  case False
  have "setParent s i g p = s" unfolding setParent_def by (rule if_not_P [OF False])
  with False show ?thesis by auto
next
  case True
  show ?thesis
  proof (cases "j = i")
    case True
    with \<open>0 \<le> i \<and> nat i < length (m_parentGeneration s)\<close> show ?thesis
      by (auto simp: hasParent_def setParent_def)
  next
    case False
    show ?thesis
    proof (cases "0 \<le> j")
      case True
      with False \<open>0 \<le> i \<and> nat i < length (m_parentGeneration s)\<close> show ?thesis
        by (simp add: hasParent_def setParent_def nth_list_update nat_index_eq)
    next
      case False
      with \<open>j \<noteq> i\<close> show ?thesis by (simp add: hasParent_def)
    qed
  qed
qed

lemma getParent_setParent:
  assumes "length (m_parentValues s) = length (m_parentGeneration s)"
  shows "getParent (setParent s i g p) j g' =
     (if j = i \<and> 0 \<le> i \<and> nat i < length (m_parentGeneration s)
      then (if g' = g then p else - 1)
      else getParent s j g')"
proof (cases "0 \<le> i \<and> nat i < length (m_parentGeneration s)")
  case False
  have "setParent s i g p = s" unfolding setParent_def by (rule if_not_P [OF False])
  with False show ?thesis by auto
next
  case True
  show ?thesis
  proof (cases "j = i")
    case True
    with \<open>0 \<le> i \<and> nat i < length (m_parentGeneration s)\<close> assms show ?thesis
      by (simp add: getParent_def hasParent_setParent) (simp add: setParent_def)
  next
    case False
    show ?thesis
    proof (cases "0 \<le> j")
      case True
      with False \<open>0 \<le> i \<and> nat i < length (m_parentGeneration s)\<close> show ?thesis
        by (simp add: getParent_def hasParent_setParent)
           (simp add: setParent_def nth_list_update nat_index_eq)
    next
      case False
      then show ?thesis by (simp add: getParent_def hasParent_def)
    qed
  qed
qed

lemma hasParent_setGCost [simp]: "hasParent (setGCost s i g c) j g' = hasParent s j g'"
  by (simp add: hasParent_def setGCost_def)

lemma hasParent_setClosed [simp]: "hasParent (setClosed s i g) j g' = hasParent s j g'"
  by (simp add: hasParent_def setClosed_def)

lemma hasParent_pushOpenNode [simp]: "hasParent (pushOpenNode s n) j g' = hasParent s j g'"
  by (simp add: hasParent_def pushOpenNode_def Let_def)

lemma hasParent_popOpenNode: "popOpenNode s = Some (n, s') \<Longrightarrow> hasParent s' j g' = hasParent s j g'"
  by (erule popOpenNode_state) (simp add: hasParent_def)

lemma getParent_setGCost [simp]: "getParent (setGCost s i g c) j g' = getParent s j g'"
  by (simp add: getParent_def) (simp add: setGCost_def)

lemma getParent_setClosed [simp]: "getParent (setClosed s i g) j g' = getParent s j g'"
  by (simp add: getParent_def) (simp add: setClosed_def)

lemma getParent_pushOpenNode [simp]: "getParent (pushOpenNode s n) j g' = getParent s j g'"
  by (simp add: getParent_def) (simp add: pushOpenNode_def Let_def)

lemma getParent_popOpenNode: "popOpenNode s = Some (n, s') \<Longrightarrow> getParent s' j g' = getParent s j g'"
  by (erule popOpenNode_state) (simp add: getParent_def hasParent_def)

lemma m_openHeap_setGCost [simp]: "m_openHeap (setGCost s i g c) = m_openHeap s"
  by (simp add: setGCost_def)

lemma m_openHeap_setParent [simp]: "m_openHeap (setParent s i g p) = m_openHeap s"
  by (simp add: setParent_def)

lemma m_openHeap_setClosed [simp]: "m_openHeap (setClosed s i g) = m_openHeap s"
  by (simp add: setClosed_def)

lemma step_ok_same_grid: "same_grid s s' \<Longrightarrow> step_ok s' a b = step_ok s a b"
  by (simp add: step_ok_def same_grid_collectNeighbors same_grid_isWalkable)

lemma route_ok_same_grid:
  assumes "same_grid s s'"
  shows "route_ok s' ps = route_ok s ps"
proof (induction ps rule: induct_list012)
  case (3 a b rest)
  then show ?case by (simp add: step_ok_same_grid [OF assms])
qed simp_all

subsection \<open>The heap keeps its entries\<close>

lemma set_swap_nodes: "i < length h \<Longrightarrow> j < length h \<Longrightarrow> set (swap_nodes h i j) = set h"
  unfolding swap_nodes_def by (rule set_swap)

lemma set_sift_up: "i < length h \<Longrightarrow> set (sift_up h i) = set h"
proof (induction h i rule: sift_up.induct)
  case (1 h i)
  show ?case
  proof (cases "i > 0 \<and> \<not> heapLess (h ! ((i - 1) div 2)) (h ! i)")
    case False
    then show ?thesis by (auto simp: sift_up.simps [of h i])
  next
    case True
    then have p: "(i - 1) div 2 < length h" using "1.prems" by simp
    have "set (sift_up (swap_nodes h ((i - 1) div 2) i) ((i - 1) div 2))
        = set (swap_nodes h ((i - 1) div 2) i)"
      using True p by (intro "1.IH") simp_all
    with True p "1.prems" show ?thesis
      by (simp add: sift_up.simps [of h i] set_swap_nodes)
  qed
qed

lemma set_sift_down: "set (sift_down h i) = set h"
proof (induction h i rule: sift_down.induct)
  case (1 h i)
  show ?case
  proof (cases "smallest_of h i = i")
    case True
    then show ?thesis by (simp add: sift_down.simps [of h i])
  next
    case False
    with smallest_of_cases [of h i]
    have b: "i < smallest_of h i" "smallest_of h i < length h" by auto
    from "1.IH" [OF False] False b show ?thesis
      by (simp add: sift_down.simps [of h i] set_swap_nodes)
  qed
qed

lemma set_pushOpenNode:
  "set (m_openHeap (pushOpenNode s n)) = insert n (set (m_openHeap s))"
  by (simp add: pushOpenNode_def Let_def set_sift_up)

lemma popOpenNode_entries:
  assumes "popOpenNode s = Some (n, s')"
  shows "n \<in> set (m_openHeap s)" and "set (m_openHeap s') \<subseteq> set (m_openHeap s)"
proof -
  from assms obtain rest where h: "m_openHeap s = n # rest"
    by (auto simp: popOpenNode_def Let_def split: list.splits if_splits)
  then show "n \<in> set (m_openHeap s)" by simp
  have bl: "set (butlast (m_openHeap s)) \<subseteq> set (m_openHeap s)"
    by (meson in_set_butlastD subsetI)
  have la: "last (m_openHeap s) \<in> set (m_openHeap s)"
    using h by (intro last_in_set) simp
  have "set ((butlast (m_openHeap s))[0 := last (m_openHeap s)]) \<subseteq> set (m_openHeap s)"
    using bl la set_update_subset_insert [of "butlast (m_openHeap s)" 0 "last (m_openHeap s)"]
    by auto
  with bl assms h show "set (m_openHeap s') \<subseteq> set (m_openHeap s)"
    by (auto simp: popOpenNode_def Let_def set_sift_down split: if_splits)
qed

lemma popOpenNode_nonempty: "m_openHeap s \<noteq> [] \<Longrightarrow> popOpenNode s \<noteq> None"
  by (auto simp: popOpenNode_def Let_def split: list.splits)

subsection \<open>Collected neighbours\<close>

lemma neighbor_candidate_iff:
  "b \<in> set (neighbor_candidate s a dx dy) \<longleftrightarrow>
     (dx \<noteq> 0 \<or> dy \<noteq> 0) \<and> b = Point (px a + dx) (py a + dy) \<and>
     0 \<le> px a + dx \<and> px a + dx < m_width s \<and> 0 \<le> py a + dy \<and> py a + dy < m_height s \<and>
     (dx \<noteq> 0 \<and> dy \<noteq> 0 \<longrightarrow>
        isWalkable s (px a + dx) (py a) \<and> isWalkable s (px a) (py a + dy))"
  by (auto simp: neighbor_candidate_def Let_def)

lemma collectNeighbors_iff:
  "b \<in> set (collectNeighbors s a) \<longleftrightarrow>
     (\<exists>dx \<in> {- 1, 0, 1}. \<exists>dy \<in> {- 1, 0, 1}. b \<in> set (neighbor_candidate s a dx dy))"
  by (simp add: collectNeighbors_def)

lemma collectNeighbors_props:
  assumes "b \<in> set (collectNeighbors s a)"
  shows "b \<noteq> a" and "0 \<le> px b" and "px b < m_width s" and "0 \<le> py b" and "py b < m_height s"
    and "\<bar>px b - px a\<bar> \<le> 1" and "\<bar>py b - py a\<bar> \<le> 1"
    and "px b \<noteq> px a \<Longrightarrow> py b \<noteq> py a \<Longrightarrow>
         isWalkable s (px b) (py a) \<and> isWalkable s (px a) (py b)"
proof -
  from assms obtain dx dy where d: "dx \<in> {- 1, 0, 1}" "dy \<in> {- 1, 0, 1}"
    and c: "b \<in> set (neighbor_candidate s a dx dy)"
    unfolding collectNeighbors_iff by blast
  from c have b: "b = Point (px a + dx) (py a + dy)" and nz: "dx \<noteq> 0 \<or> dy \<noteq> 0"
    and r: "0 \<le> px a + dx" "px a + dx < m_width s" "0 \<le> py a + dy" "py a + dy < m_height s"
    and w: "dx \<noteq> 0 \<and> dy \<noteq> 0 \<longrightarrow>
        isWalkable s (px a + dx) (py a) \<and> isWalkable s (px a) (py a + dy)"
    unfolding neighbor_candidate_iff by blast+
  from b nz show "b \<noteq> a" by (cases a) auto
  from b r show "0 \<le> px b" "px b < m_width s" "0 \<le> py b" "py b < m_height s" by simp_all
  from b d show "\<bar>px b - px a\<bar> \<le> 1" "\<bar>py b - py a\<bar> \<le> 1" by auto
  show "isWalkable s (px b) (py a) \<and> isWalkable s (px a) (py b)"
    if "px b \<noteq> px a" "py b \<noteq> py a"
    using that b w by simp
qed

subsection \<open>The loop invariant is kept\<close>

lemma search_inv_sizes:
  assumes "search_inv s g si"
  shows "length (m_closedGeneration s) = total_cells s"
    and "length (m_gCostGeneration s) = total_cells s"
    and "length (m_gCostValues s) = total_cells s"
    and "length (m_parentGeneration s) = total_cells s"
    and "length (m_parentValues s) = total_cells s"
  using assms by (simp_all add: search_inv_def)

lemma search_inv_link:
  assumes "search_inv s g si" and "hasParent s c g" and "c \<noteq> si"
  shows "step_ok s (toPoint s (getParent s c g)) (toPoint s c)"
    and "getGCost s (getParent s c g) g < getGCost s c g"
  using assms by (simp_all add: search_inv_def)

lemma search_inv_nonneg: "search_inv s g si \<Longrightarrow> 0 \<le> getGCost s i g"
  by (simp add: search_inv_def)

lemma search_inv_heap:
  "search_inv s g si \<Longrightarrow> n \<in> set (m_openHeap s) \<Longrightarrow> getGCost s (node_index n) g \<le> gCost n"
  by (simp add: search_inv_def)

lemma search_invI:
  assumes "same_grid s0 s" and "same_shape s0 s"
    and "length (m_closedGeneration s0) = total_cells s0"
    and "length (m_gCostGeneration s0) = total_cells s0"
    and "length (m_gCostValues s0) = total_cells s0"
    and "length (m_parentGeneration s0) = total_cells s0"
    and "length (m_parentValues s0) = total_cells s0"
    and "\<And>c. hasParent s c g \<Longrightarrow> c \<noteq> si \<Longrightarrow>
           step_ok s0 (toPoint s0 (getParent s c g)) (toPoint s0 c) \<and>
           getGCost s (getParent s c g) g < getGCost s c g"
    and "\<And>i. 0 \<le> getGCost s i g"
    and "\<And>n. n \<in> set (m_openHeap s) \<Longrightarrow> getGCost s (node_index n) g \<le> gCost n"
  shows "search_inv s g si"
proof -
  have dims: "m_width s = m_width s0" "m_height s = m_height s0"
    using assms(1) by (simp_all add: same_grid_def)
  have "step_ok s (toPoint s (getParent s c g)) (toPoint s c)" if "hasParent s c g" "c \<noteq> si" for c
    using assms(8) [OF that] by (simp add: step_ok_same_grid [OF assms(1)] same_grid_toPoint [OF assms(1)])
  with assms(2-10) same_grid_total_cells [OF assms(1)] show ?thesis
    unfolding search_inv_def same_shape_def by simp
qed

lemma search_inv_relax_step:
  assumes inv: "search_inv s g si"
      and nb: "n \<in> set (collectNeighbors s (toPoint s p))"
      and walk: "isWalkable s (px n) (py n)"
      and cost: "getGCost s p g \<le> gc"
      and better: "gc + 1 < getGCost s (toIndex s n) g"
  shows "search_inv
           (pushOpenNode (setParent (setGCost s (toIndex s n) g (gc + 1)) (toIndex s n) g p)
              (QueueNode (toIndex s n) f (gc + 1))) g si"
    and "getGCost
           (pushOpenNode (setParent (setGCost s (toIndex s n) g (gc + 1)) (toIndex s n) g p)
              (QueueNode (toIndex s n) f (gc + 1))) p g \<le> gc"
proof -
  let ?ni = "toIndex s n"
  let ?s1 = "setGCost s ?ni g (gc + 1)"
  let ?s2 = "setParent ?s1 ?ni g p"
  define s3 where "s3 = pushOpenNode ?s2 (QueueNode ?ni f (gc + 1))"
  note sz = search_inv_sizes [OF inv]
  note np = collectNeighbors_props [OF nb]
  have rng: "0 \<le> ?ni" "nat ?ni < total_cells s"
    using toIndex_range [of n s] np by simp_all
  have pt: "toPoint s ?ni = n"
    using np by (simp add: toPoint_toIndex)
  have ne: "?ni \<noteq> p"
    using pt np(1) by auto
  have sg: "same_grid s s3"
    unfolding s3_def
    by (meson same_grid_trans same_grid_setGCost same_grid_setParent same_grid_pushOpenNode)
  have sh1: "same_shape s ?s1" by simp
  have sh: "same_shape s s3"
    unfolding s3_def
    by (meson same_shape_trans same_shape_setGCost same_shape_setParent same_shape_pushOpenNode)
  have gc3: "getGCost s3 j g = (if j = ?ni then gc + 1 else getGCost s j g)" for j
    unfolding s3_def using rng sz by (simp add: getGCost_setGCost)
  have hp3: "hasParent s3 j g = (if j = ?ni then True else hasParent s j g)" for j
    unfolding s3_def using rng sz sh1 by (simp add: hasParent_setParent same_shape_def)
  have gp3: "getParent s3 j g = (if j = ?ni then p else getParent s j g)" for j
    unfolding s3_def using rng sz sh1 by (simp add: getParent_setParent same_shape_def)
  have heap3: "set (m_openHeap s3) = insert (QueueNode ?ni f (gc + 1)) (set (m_openHeap s))"
    unfolding s3_def by (simp add: set_pushOpenNode)
  have lower: "getGCost s3 j g \<le> getGCost s j g" for j
    using better by (simp add: gc3)
  have keep: "getGCost s3 p g \<le> gc"
    using ne cost by (simp add: gc3)
  have "search_inv s3 g si"
  proof (rule search_invI [OF sg sh sz])
    fix c assume c: "hasParent s3 c g" "c \<noteq> si"
    show "step_ok s (toPoint s (getParent s3 c g)) (toPoint s c) \<and>
          getGCost s3 (getParent s3 c g) g < getGCost s3 c g"
    proof (cases "c = ?ni")
      case True
      have "step_ok s (toPoint s p) n"
        using nb walk by (simp add: step_ok_def)
      moreover have "getGCost s3 p g < gc + 1"
        using keep by simp
      ultimately show ?thesis
        using True pt by (simp add: gp3 gc3)
    next
      case False
      with c have hp: "hasParent s c g" by (simp add: hp3)
      note l = search_inv_link [OF inv hp c(2)]
      have "getGCost s3 (getParent s c g) g \<le> getGCost s (getParent s c g) g"
        by (rule lower)
      with l False show ?thesis by (simp add: gp3 gc3)
    qed
  next
    fix i
    have "0 \<le> getGCost s p g" using inv by (rule search_inv_nonneg)
    with cost have "0 \<le> gc + 1" by simp
    with search_inv_nonneg [OF inv, of i] show "0 \<le> getGCost s3 i g"
      by (simp add: gc3)
  next
    fix m assume "m \<in> set (m_openHeap s3)"
    then consider "m = QueueNode ?ni f (gc + 1)" | "m \<in> set (m_openHeap s)"
      unfolding heap3 by blast
    then show "getGCost s3 (node_index m) g \<le> gCost m"
    proof cases
      case 1
      then show ?thesis by (simp add: gc3)
    next
      case 2
      from lower [of "node_index m"] search_inv_heap [OF inv 2] show ?thesis by simp
    qed
  qed
  then show "search_inv
           (pushOpenNode (setParent (setGCost s (toIndex s n) g (gc + 1)) (toIndex s n) g p)
              (QueueNode (toIndex s n) f (gc + 1))) g si"
    unfolding s3_def .
  from keep show "getGCost
           (pushOpenNode (setParent (setGCost s (toIndex s n) g (gc + 1)) (toIndex s n) g p)
              (QueueNode (toIndex s n) f (gc + 1))) p g \<le> gc"
    unfolding s3_def .
qed

lemma search_inv_relax_neighbors:
  assumes "search_inv s g si"
      and "\<forall>n \<in> set ns. n \<in> set (collectNeighbors s (toPoint s (node_index cur)))"
      and "getGCost s (node_index cur) g \<le> gCost cur"
  shows "search_inv (relax_neighbors s cur e g ns) g si"
  using assms
proof (induction ns arbitrary: s)
  case Nil
  then show ?case by simp
next
  case (Cons n ns)
  let ?p = "node_index cur"
  let ?s' = "pushOpenNode
               (setParent (setGCost s (toIndex s n) g (gCost cur + 1)) (toIndex s n) g ?p)
               (QueueNode (toIndex s n) (gCost cur + 1 + calculateHeuristic n e) (gCost cur + 1))"
  from Cons.prems(2) have nb: "n \<in> set (collectNeighbors s (toPoint s ?p))"
    and rest: "\<forall>m \<in> set ns. m \<in> set (collectNeighbors s (toPoint s ?p))"
    by simp_all
  show ?case
  proof (cases "isWalkable s (px n) (py n) \<and> \<not> isClosed s (toIndex s n) g \<and>
                gCost cur + 1 < getGCost s (toIndex s n) g")
    case False
    with Cons.IH [OF Cons.prems(1) rest Cons.prems(3)] show ?thesis
      by auto
  next
    case True
    then have walk: "isWalkable s (px n) (py n)"
      and better: "gCost cur + 1 < getGCost s (toIndex s n) g"
      by simp_all
    note step = search_inv_relax_step [OF Cons.prems(1) nb walk Cons.prems(3) better,
        of "gCost cur + 1 + calculateHeuristic n e"]
    have sg: "same_grid s ?s'"
      by (meson same_grid_trans same_grid_setGCost same_grid_setParent same_grid_pushOpenNode)
    have rest': "\<forall>m \<in> set ns. m \<in> set (collectNeighbors ?s' (toPoint ?s' ?p))"
      using rest by (simp add: same_grid_collectNeighbors [OF sg] same_grid_toPoint [OF sg])
    from Cons.IH [OF step(1) rest' step(2)] True show ?thesis
      by simp
  qed
qed

lemma search_inv_heap_update:
  assumes "search_inv s g si" and "set h \<subseteq> set (m_openHeap s)"
  shows "search_inv (s\<lparr>m_openHeap := h\<rparr>) g si"
proof (rule search_invI [where ?s0.0 = s])
  show "same_grid s (s\<lparr>m_openHeap := h\<rparr>)" by (simp add: same_grid_def)
  show "same_shape s (s\<lparr>m_openHeap := h\<rparr>)" by (simp add: same_shape_def)
  have h: "hasParent (s\<lparr>m_openHeap := h\<rparr>) c g = hasParent s c g" for c
    by (simp add: hasParent_def)
  have p: "getParent (s\<lparr>m_openHeap := h\<rparr>) c g = getParent s c g" for c
    by (simp add: getParent_def hasParent_def)
  have c: "getGCost (s\<lparr>m_openHeap := h\<rparr>) i g = getGCost s i g" for i
    by (simp add: getGCost_def)
  show "step_ok s (toPoint s (getParent (s\<lparr>m_openHeap := h\<rparr>) c g)) (toPoint s c) \<and>
        getGCost (s\<lparr>m_openHeap := h\<rparr>) (getParent (s\<lparr>m_openHeap := h\<rparr>) c g) g
          < getGCost (s\<lparr>m_openHeap := h\<rparr>) c g"
    if "hasParent (s\<lparr>m_openHeap := h\<rparr>) c g" "c \<noteq> si" for c
    using that search_inv_link [OF assms(1), of c] by (simp add: h p c)
  show "0 \<le> getGCost (s\<lparr>m_openHeap := h\<rparr>) i g" for i
    using search_inv_nonneg [OF assms(1), of i] by (simp add: c)
  show "getGCost (s\<lparr>m_openHeap := h\<rparr>) (node_index n) g \<le> gCost n"
    if "n \<in> set (m_openHeap (s\<lparr>m_openHeap := h\<rparr>))" for n
    using that assms(2) search_inv_heap [OF assms(1), of n] by (auto simp: c)
qed (rule search_inv_sizes [OF assms(1)])+

lemma search_inv_popOpenNode:
  assumes "search_inv s g si" and "popOpenNode s = Some (n, s')"
  shows "search_inv s' g si"
proof -
  from assms(2) obtain h where s': "s' = s\<lparr>m_openHeap := h\<rparr>"
    by (rule popOpenNode_state)
  with popOpenNode_entries(2) [OF assms(2)] have "set h \<subseteq> set (m_openHeap s)" by simp
  with assms(1) show ?thesis unfolding s' by (rule search_inv_heap_update)
qed

lemma search_inv_setClosed:
  assumes "search_inv s g si"
  shows "search_inv (setClosed s i g') g si"
proof (rule search_invI [where ?s0.0 = s])
  show "step_ok s (toPoint s (getParent (setClosed s i g') c g)) (toPoint s c) \<and>
        getGCost (setClosed s i g') (getParent (setClosed s i g') c g) g
          < getGCost (setClosed s i g') c g"
    if "hasParent (setClosed s i g') c g" "c \<noteq> si" for c
    using that search_inv_link [OF assms, of c] by simp
  show "0 \<le> getGCost (setClosed s i g') j g" for j
    using search_inv_nonneg [OF assms, of j] by simp
  show "getGCost (setClosed s i g') (node_index n) g \<le> gCost n"
    if "n \<in> set (m_openHeap (setClosed s i g'))" for n
    using that search_inv_heap [OF assms, of n] by simp
qed (simp_all add: search_inv_sizes [OF assms])

lemma search_inv_search_body:
  assumes "search_inv s g si" and "search_body s ei e g = (s', r)"
  shows "search_inv s' g si"
proof (cases "popOpenNode s")
  case None
  with assms show ?thesis by (simp add: search_body_def)
next
  case (Some a)
  obtain cur s1 where a: "a = (cur, s1)" by (cases a)
  with Some have pop: "popOpenNode s = Some (cur, s1)" by simp
  note inv1 = search_inv_popOpenNode [OF assms(1) pop]
  let ?s2 = "setClosed s1 (node_index cur) g"
  have inv2: "search_inv ?s2 g si"
    using inv1 by (rule search_inv_setClosed)
  have "getGCost s (node_index cur) g \<le> gCost cur"
    using assms(1) popOpenNode_entries(1) [OF pop] by (rule search_inv_heap)
  then have cost: "getGCost ?s2 (node_index cur) g \<le> gCost cur"
    by (simp add: getGCost_popOpenNode [OF pop])
  have "search_inv (relax_neighbors ?s2 cur e g (collectNeighbors ?s2 (toPoint ?s2 (node_index cur)))) g si"
    using inv2 _ cost by (rule search_inv_relax_neighbors) simp
  with assms(2) pop inv1 inv2 show ?thesis
    by (auto simp: search_body_def Let_def split: if_splits)
qed

lemma search_inv_search_loop:
  assumes "search_inv s g si" and "search_loop s ei e g mx it = (s', it', fc)"
  shows "search_inv s' g si"
  using assms
proof (induction s ei e g mx it arbitrary: s' it' fc rule: search_loop.induct)
  case (1 s ei e g mx it)
  show ?case
  proof (cases "m_openHeap s \<noteq> [] \<and> it < mx")
    case False
    with "1.prems" show ?thesis by (simp add: search_loop.simps)
  next
    case True
    obtain s1 r where body: "search_body s ei e g = (s1, r)" by (cases "search_body s ei e g")
    note inv1 = search_inv_search_body [OF "1.prems"(1) body]
    show ?thesis
    proof (cases r)
      case None
      with True body "1.prems"(2) have rec: "search_loop s1 ei e g mx (it + 1) = (s', it', fc)"
        by (simp add: search_loop.simps [of s])
      from "1.IH" [OF True body [symmetric] None inv1 rec] show ?thesis .
    next
      case (Some c)
      with True body "1.prems"(2) have "s' = s1"
        by (simp add: search_loop.simps [of s])
      with inv1 show ?thesis by simp
    qed
  qed
qed

subsection \<open>The invariant holds when the loop is entered\<close>

lemma ensureWorkingBuffers_sizes:
  assumes "scratch_ok s"
  shows "scratch_ok (ensureWorkingBuffers s)"
    and "length (m_closedGeneration (ensureWorkingBuffers s)) = total_cells s"
    and "length (m_gCostGeneration (ensureWorkingBuffers s)) = total_cells s"
    and "length (m_gCostValues (ensureWorkingBuffers s)) = total_cells s"
    and "length (m_parentGeneration (ensureWorkingBuffers s)) = total_cells s"
    and "length (m_parentValues (ensureWorkingBuffers s)) = total_cells s"
  using assms
  by (cases "length (m_closedGeneration s) = nat (m_width s) * nat (m_height s)";
      simp add: ensureWorkingBuffers_def Let_def scratch_ok_def total_cells_def)+

lemma INT_MAX_pos: "0 \<le> INT_MAX"
  by (simp add: INT_MAX_def)

lemma search_inv_initial:
  assumes ok: "scratch_ok s0"
      and ng: "nextGeneration (ensureWorkingBuffers s0) = (g, s1)"
      and walk: "isWalkable s0 (px start) (py start)"
  shows "search_inv
           (pushOpenNode
              (setParent (setGCost (s1\<lparr>m_openHeap := []\<rparr>) (toIndex s0 start) g 0)
                 (toIndex s0 start) g (toIndex s0 start))
              (QueueNode (toIndex s0 start) h 0)) g (toIndex s0 start)"
proof -
  let ?s = "ensureWorkingBuffers s0"
  let ?si = "toIndex s0 start"
  define sA where "sA = s1\<lparr>m_openHeap := []\<rparr>"
  define s5 where "s5 = pushOpenNode (setParent (setGCost sA ?si g 0) ?si g ?si) (QueueNode ?si h 0)"
  note ez = ensureWorkingBuffers_sizes [OF ok]
  note fresh = nextGeneration_fresh [OF ez(1) ng]
  note nr = nextGeneration_result [OF ng]
  have g0: "same_grid s0 sA"
    unfolding sA_def
    using same_grid_ensureWorkingBuffers [of s0] same_grid_nextGeneration [OF ng]
    by (simp add: same_grid_def)
  have dims: "m_width sA = m_width s0" "m_height sA = m_height s0"
    using g0 by (simp_all add: same_grid_def)
  have cells: "total_cells sA = total_cells s0"
    using g0 by (rule same_grid_total_cells)
  have sz: "length (m_closedGeneration sA) = total_cells sA"
    "length (m_gCostGeneration sA) = total_cells sA"
    "length (m_gCostValues sA) = total_cells sA"
    "length (m_parentGeneration sA) = total_cells sA"
    "length (m_parentValues sA) = total_cells sA"
    using ez(2-6) nr(3-7) unfolding cells unfolding sA_def by simp_all
  have rng: "0 \<le> ?si" "nat ?si < total_cells sA"
    using toIndex_range [of start s0] isWalkable_in_grid [OF walk] unfolding cells by simp_all
  have noG: "getGCost sA i g = INT_MAX" for i
    using fresh(2) unfolding sA_def getGCost_def by (simp add: nth_mem)
  have noP: "\<not> hasParent sA i g" for i
    using fresh(3) unfolding sA_def hasParent_def by (simp add: nth_mem)
  have sg: "same_grid sA s5"
    unfolding s5_def
    by (meson same_grid_trans same_grid_setGCost same_grid_setParent same_grid_pushOpenNode)
  have sh1: "same_shape sA (setGCost sA ?si g 0)" by simp
  have sh: "same_shape sA s5"
    unfolding s5_def
    by (meson same_shape_trans same_shape_setGCost same_shape_setParent same_shape_pushOpenNode)
  have gc5: "getGCost s5 j g = (if j = ?si then 0 else INT_MAX)" for j
    unfolding s5_def using rng sz by (simp add: getGCost_setGCost noG)
  have hp5: "hasParent s5 j g = (j = ?si)" for j
    unfolding s5_def using rng sz sh1 by (simp add: hasParent_setParent same_shape_def noP)
  have heap5: "set (m_openHeap s5) = {QueueNode ?si h 0}"
    unfolding s5_def by (simp add: set_pushOpenNode sA_def)
  have "search_inv s5 g ?si"
  proof (rule search_invI [OF sg sh sz])
    show "step_ok sA (toPoint sA (getParent s5 c g)) (toPoint sA c) \<and>
          getGCost s5 (getParent s5 c g) g < getGCost s5 c g"
      if "hasParent s5 c g" "c \<noteq> ?si" for c
      using that by (simp add: hp5)
    show "0 \<le> getGCost s5 i g" for i
      by (simp add: gc5 INT_MAX_pos)
    show "getGCost s5 (node_index n) g \<le> gCost n" if "n \<in> set (m_openHeap s5)" for n
      using that by (simp add: heap5 gc5)
  qed
  then show ?thesis unfolding s5_def sA_def .
qed

subsection \<open>Path reconstruction\<close>

lemma route_ok_snoc:
  "route_ok s ps \<Longrightarrow> ps \<noteq> [] \<Longrightarrow> step_ok s (last ps) p \<Longrightarrow> route_ok s (ps @ [p])"
  by (induction ps rule: induct_list012) (auto split: if_splits)

text \<open>
  Under the loop invariant the walk along the parent links returns, and a non-empty
  result is a route from the start cell to the cell the walk began at, followed by the
  points already collected.
\<close>

lemma buildPath_loop_route:
  assumes inv: "search_inv s g si"
  shows "\<exists>path. buildPath_loop s si g cur acc = Some path \<and>
           (path \<noteq> [] \<longrightarrow>
              (\<exists>chain. path = chain @ rev acc \<and> chain \<noteq> [] \<and>
                 hd chain = toPoint s si \<and> last chain = toPoint s cur \<and> route_ok s chain \<and>
                 (\<forall>p \<in> set (tl chain). isWalkable s (px p) (py p))))"
proof (induction "nat (getGCost s cur g)" arbitrary: cur acc rule: less_induct)
  case less
  show ?case
  proof (cases "0 \<le> cur \<and> cur \<noteq> si \<and> hasParent s cur g \<and>
                \<not> (getParent s cur g = cur \<or> getParent s cur g < 0)")
    case False
    then consider "\<not> 0 \<le> cur" | "0 \<le> cur" "cur = si"
      | "0 \<le> cur" "cur \<noteq> si" "\<not> hasParent s cur g"
      | "0 \<le> cur" "cur \<noteq> si" "hasParent s cur g"
        "getParent s cur g = cur \<or> getParent s cur g < 0"
      by blast
    then show ?thesis
    proof cases
      case 1
      then show ?thesis by (subst buildPath_loop.simps) simp
    next
      case 2
      then have "buildPath_loop s si g cur acc = Some ([toPoint s si] @ rev acc)"
        by (subst buildPath_loop.simps) simp
      with 2 show ?thesis by auto
    next
      case 3
      then show ?thesis by (subst buildPath_loop.simps) simp
    next
      case 4
      then show ?thesis by (subst buildPath_loop.simps) auto
    qed
  next
    case True
    let ?q = "getParent s cur g"
    from True have c: "0 \<le> cur" "cur \<noteq> si" "hasParent s cur g" "?q \<noteq> cur" "0 \<le> ?q"
      by auto
    note l = search_inv_link [OF inv c(3) c(2)]
    have "nat (getGCost s ?q g) < nat (getGCost s cur g)"
      using l(2) search_inv_nonneg [OF inv, of ?q] by simp
    from less [OF this, of "acc @ [toPoint s cur]"] obtain path where
      r: "buildPath_loop s si g ?q (acc @ [toPoint s cur]) = Some path" and
      v: "path \<noteq> [] \<longrightarrow>
              (\<exists>chain. path = chain @ rev (acc @ [toPoint s cur]) \<and> chain \<noteq> [] \<and>
                 hd chain = toPoint s si \<and> last chain = toPoint s ?q \<and> route_ok s chain \<and>
                 (\<forall>p \<in> set (tl chain). isWalkable s (px p) (py p)))"
      by blast
    from c r have run: "buildPath_loop s si g cur acc = Some path"
      by (subst buildPath_loop.simps) simp
    have "\<exists>chain. path = chain @ rev acc \<and> chain \<noteq> [] \<and>
                 hd chain = toPoint s si \<and> last chain = toPoint s cur \<and> route_ok s chain \<and>
                 (\<forall>p \<in> set (tl chain). isWalkable s (px p) (py p))"
      if "path \<noteq> []"
    proof -
      from v that obtain chain where ch: "path = chain @ rev (acc @ [toPoint s cur])"
        "chain \<noteq> []" "hd chain = toPoint s si" "last chain = toPoint s ?q" "route_ok s chain"
        "\<forall>p \<in> set (tl chain). isWalkable s (px p) (py p)"
        by blast
      let ?chain = "chain @ [toPoint s cur]"
      have "route_ok s ?chain"
        using ch(5,2) l(1) ch(4) by (intro route_ok_snoc) simp_all
      moreover have "isWalkable s (px (toPoint s cur)) (py (toPoint s cur))"
        using l(1) by (simp add: step_ok_def)
      ultimately have "path = ?chain @ rev acc \<and> ?chain \<noteq> [] \<and>
                 hd ?chain = toPoint s si \<and> last ?chain = toPoint s cur \<and> route_ok s ?chain \<and>
                 (\<forall>p \<in> set (tl ?chain). isWalkable s (px p) (py p))"
        using ch by auto
      then show ?thesis by blast
    qed
    with run show ?thesis by blast
  qed
qed

subsection \<open>Every query returns, and what it returns is a route\<close>

lemma ex3I: "P a b c \<Longrightarrow> \<exists>x y z. P x y z"
  by blast

lemma findPathInternal_sound:
  assumes ok: "scratch_ok s"
  shows "\<exists>path it s'. findPathInternal s start dest = Some (path, it, s') \<and>
           (path \<noteq> [] \<longrightarrow>
              hd path = start \<and> last path = dest \<and> route_ok s path \<and>
              (\<forall>p \<in> set path. isWalkable s (px p) (py p)))"
proof (cases "isWalkable s (px start) (py start) \<and> isWalkable s (px dest) (py dest)")
  case False
  then have "\<not> isWalkable s (px start) (py start) \<or> \<not> isWalkable s (px dest) (py dest)"
    by blast
  then have "findPathInternal s start dest = Some ([], 0, ensureWorkingBuffers s)"
    by (rule findPathInternal_unwalkable)
  then show ?thesis
    by (intro ex3I [of _ "[]" 0 "ensureWorkingBuffers s"]) simp
next
  case walk: True
  then have ws: "isWalkable s (px start) (py start)" and wd: "isWalkable s (px dest) (py dest)"
    by blast+
  note gs = isWalkable_in_grid [OF ws]
  note gd = isWalkable_in_grid [OF wd]
  have ps: "toPoint s (toIndex s start) = start"
    using gs by (intro toPoint_toIndex) blast+
  have pd: "toPoint s (toIndex s dest) = dest"
    using gd by (intro toPoint_toIndex) blast+
  show ?thesis
  proof (cases "toIndex s start = toIndex s dest")
    case True
    with ps pd have eq: "dest = start" by metis
    have "findPathInternal s start dest = Some ([start], 0, ensureWorkingBuffers s)"
      unfolding eq using ws by (rule findPathInternal_same_point)
    moreover have "hd [start] = start \<and> last [start] = dest \<and> route_ok s [start] \<and>
        (\<forall>p \<in> set [start]. isWalkable s (px p) (py p))"
      unfolding eq using ws by simp
    ultimately show ?thesis
      by (intro ex3I [of _ "[start]" 0 "ensureWorkingBuffers s"]) blast
  next
    case False
    let ?e = "ensureWorkingBuffers s"
    let ?si = "toIndex s start"
    let ?ei = "toIndex s dest"
    have dims: "m_width ?e = m_width s" "m_height ?e = m_height s"
      using same_grid_ensureWorkingBuffers [of s] by (simp_all add: same_grid_def)
    obtain g s1 where ng: "nextGeneration ?e = (g, s1)" by (cases "nextGeneration ?e")
    define s5 where "s5 = pushOpenNode
        (setParent (setGCost (s1\<lparr>m_openHeap := []\<rparr>) ?si g 0) ?si g ?si)
        (QueueNode ?si (calculateHeuristic start dest) 0)"
    obtain s6 it fc where sl:
      "search_loop s5 ?ei dest g (max (m_width s * m_height s) 1) 0 = (s6, it, fc)"
      by (cases "search_loop s5 ?ei dest g (max (m_width s * m_height s) 1) 0")
    have inv5: "search_inv s5 g ?si"
      unfolding s5_def using ok ng ws by (rule search_inv_initial)
    have inv6: "search_inv s6 g ?si"
      using inv5 sl by (rule search_inv_search_loop)
    have g5: "same_grid s s5"
    proof -
      have "same_grid s1 (s1\<lparr>m_openHeap := []\<rparr>)" by (simp add: same_grid_def)
      then have "same_grid s1 s5"
        unfolding s5_def
        by (meson same_grid_trans same_grid_setGCost same_grid_setParent same_grid_pushOpenNode)
      with same_grid_ensureWorkingBuffers [of s] same_grid_nextGeneration [OF ng]
      show ?thesis by (meson same_grid_trans)
    qed
    have g6: "same_grid s s6"
      using g5 same_grid_search_loop [OF sl] by (rule same_grid_trans)
    have unfold: "findPathInternal s start dest =
        (if fc < 0 then Some ([], it, s6)
         else map_option (\<lambda>path. (path, it, s6)) (buildPath_loop s6 ?si g ?ei []))"
      using ws wd False ng sl [unfolded s5_def] dims
      by (simp add: findPathInternal_def Let_def buildPath_def)
    show ?thesis
    proof (cases "fc < 0")
      case True
      with unfold have "findPathInternal s start dest = Some ([], it, s6)" by simp
      then show ?thesis
        by (intro ex3I [of _ "[]" it s6]) simp
    next
      case nonneg: False
      from buildPath_loop_route [OF inv6, of ?ei "[]"] obtain path where
        bp: "buildPath_loop s6 ?si g ?ei [] = Some path" and
        v: "path \<noteq> [] \<longrightarrow>
              (\<exists>chain. path = chain @ rev [] \<and> chain \<noteq> [] \<and>
                 hd chain = toPoint s6 ?si \<and> last chain = toPoint s6 ?ei \<and> route_ok s6 chain \<and>
                 (\<forall>p \<in> set (tl chain). isWalkable s6 (px p) (py p)))"
        by blast
      have sound: "hd path = start \<and> last path = dest \<and> route_ok s path \<and>
            (\<forall>p \<in> set path. isWalkable s (px p) (py p))" if ne: "path \<noteq> []"
      proof -
        from v ne obtain chain where "path = chain @ rev []"
          and c0: "hd chain = toPoint s6 ?si" "last chain = toPoint s6 ?ei" "route_ok s6 chain"
            "\<forall>p \<in> set (tl chain). isWalkable s6 (px p) (py p)"
          by blast
        then have pc: "chain = path" by simp
        note c = c0 [unfolded pc]
        have h: "hd path = start"
          unfolding c(1) same_grid_toPoint [OF g6] by (rule ps)
        have l: "last path = dest"
          unfolding c(2) same_grid_toPoint [OF g6] by (rule pd)
        have r: "route_ok s path"
          using c(3) unfolding route_ok_same_grid [OF g6] .
        have w: "\<forall>p \<in> set (tl path). isWalkable s (px p) (py p)"
          using c(4) unfolding same_grid_isWalkable [OF g6] .
        have "set path = insert (hd path) (set (tl path))"
          using ne by (cases path) simp_all
        moreover have "isWalkable s (px (hd path)) (py (hd path))"
          unfolding h using ws .
        ultimately have "\<forall>p \<in> set path. isWalkable s (px p) (py p)"
          using w by (metis insertE)
        with h l r show ?thesis by (intro conjI)
      qed
      have "findPathInternal s start dest = Some (path, it, s6)"
        using unfold nonneg bp by simp
      with sound show ?thesis
        by (intro ex3I [of _ path it s6]) blast
    qed
  qed
qed

lemma scratch_ok_updateBuildingObstacles [simp]:
  "scratch_ok (updateBuildingObstacles s t bs) = scratch_ok s"
  by (simp add: updateBuildingObstacles_def scratch_ok_def Let_def)

lemma scratch_ok_setObstacle [simp]: "scratch_ok (setObstacle s x y b) = scratch_ok s"
  by (simp add: setObstacle_def scratch_ok_def)

lemma findPath_sound:
  assumes "scratch_ok s" and "findPath s t buildings start dest = Some (path, it, s')"
      and "path \<noteq> []"
  shows "hd path = start" and "last path = dest" and "route_ok s' path"
    and "\<forall>p \<in> set path. isWalkable s' (px p) (py p)"
    and "same_grid (if m_obstaclesDirty s then updateBuildingObstacles s t buildings else s) s'"
proof -
  let ?s1 = "if m_obstaclesDirty s then updateBuildingObstacles s t buildings else s"
  have ok: "scratch_ok ?s1" using assms(1) by simp
  from assms(2) have run: "findPathInternal ?s1 start dest = Some (path, it, s')"
    by (simp add: findPath_def Let_def)
  show sg: "same_grid ?s1 s'" using run by (rule same_grid_findPathInternal)
  from findPathInternal_sound [OF ok, of start dest] run assms(3)
  have "hd path = start \<and> last path = dest \<and> route_ok ?s1 path \<and>
        (\<forall>p \<in> set path. isWalkable ?s1 (px p) (py p))"
    by auto
  then show "hd path = start" "last path = dest" "route_ok s' path"
    "\<forall>p \<in> set path. isWalkable s' (px p) (py p)"
    by (simp_all add: route_ok_same_grid [OF sg] same_grid_isWalkable [OF sg])
qed

lemma findPath_returns:
  assumes "scratch_ok s"
  shows "\<exists>path it s'. findPath s t buildings start dest = Some (path, it, s')"
proof -
  let ?s1 = "if m_obstaclesDirty s then updateBuildingObstacles s t buildings else s"
  have ok: "scratch_ok ?s1" using assms by simp
  from findPathInternal_sound [OF ok, of start dest] show ?thesis
    by (auto simp: findPath_def Let_def)
qed

lemma route_ok_nth:
  "route_ok s ps \<Longrightarrow> i + 1 < length ps \<Longrightarrow> step_ok s (ps ! i) (ps ! (i + 1))"
proof (induction ps arbitrary: i rule: induct_list012)
  case (3 a b rest)
  then show ?case by (cases i) simp_all
qed simp_all

lemma isWalkable_setObstacle_blocked:
  assumes "grid_ok s" and "0 \<le> x" "x < m_width s" "0 \<le> y" "y < m_height s"
  shows "\<not> isWalkable (setObstacle s x y True) x y"
proof -
  have ylen: "nat y < length (m_obstacles s)"
    using assms by (simp add: grid_ok_def)
  then have "m_obstacles s ! nat y \<in> set (m_obstacles s)" by simp
  with assms have xlen: "nat x < length (m_obstacles s ! nat y)"
    by (simp add: grid_ok_def)
  have dims: "m_width (setObstacle s x y True) = m_width s"
    "m_height (setObstacle s x y True) = m_height s"
    by (simp_all add: setObstacle_def)
  have "m_obstacles (setObstacle s x y True) ! nat y ! nat x = 1"
    using assms(2-5) ylen xlen by (simp add: setObstacle_def)
  with assms(2-5) dims show ?thesis
    by (simp add: isWalkable_def)
qed

subsection \<open>Breadth-first search gives a lower bound for every route\<close>

lemma walkable_moves_iff: "q \<in> set (walkable_moves s p) \<longleftrightarrow> step_ok s p q"
  by (auto simp: walkable_moves_def step_ok_def)

lemma route_ok_snocD:
  "route_ok s (ps @ [p]) \<Longrightarrow> ps \<noteq> [] \<Longrightarrow> route_ok s ps \<and> step_ok s (last ps) p"
  by (induction ps rule: induct_list012) auto

lemma reach_0: "reach s start 0 p \<Longrightarrow> p = start"
proof -
  assume "reach s start 0 p"
  then obtain ps where ps: "hd ps = start" "last ps = p" "length ps = Suc 0"
    unfolding reach_def by blast
  then obtain a where "ps = [a]" by (cases ps) auto
  with ps show ?thesis by simp
qed

lemma reach_Suc:
  assumes "reach s start (Suc k) p"
  shows "\<exists>q. reach s start k q \<and> step_ok s q p"
proof -
  from assms obtain ps where ps: "hd ps = start" "last ps = p" "route_ok s ps"
    "length ps = Suc (Suc k)"
    unfolding reach_def by blast
  then have ne: "ps \<noteq> []" by auto
  let ?qs = "butlast ps"
  have split: "ps = ?qs @ [p]"
    using ne ps(2) by (metis append_butlast_last_id)
  have qne: "?qs \<noteq> []"
    using ps(4) by (cases ps) auto
  have "route_ok s (?qs @ [p])" using ps(3) split by simp
  from route_ok_snocD [OF this qne] have r: "route_ok s ?qs" "step_ok s (last ?qs) p"
    by simp_all
  have "hd ?qs = start"
    using ps(1) qne split by (metis hd_append2)
  moreover have "length ?qs = Suc k" using ps(4) by simp
  ultimately have "reach s start k (last ?qs)"
    using r(1) unfolding reach_def by blast
  with r(2) show ?thesis by blast
qed

lemma bfs_levels_lower_bound:
  assumes "bfs_levels s goal fuel visited frontier d = Some r"
      and "goal \<notin> set visited"
      and "\<forall>k < d. \<forall>p. reach s start k p \<longrightarrow> p \<in> set visited"
      and "\<forall>p. reach s start d p \<longrightarrow> p \<in> set visited \<union> set frontier"
      and "\<forall>q \<in> set visited. \<forall>p. step_ok s q p \<longrightarrow> p \<in> set visited \<union> set frontier"
  shows "\<forall>k < r. \<not> reach s start k goal"
  using assms
proof (induction fuel arbitrary: visited frontier d)
  case 0
  then have "r = d" by (simp split: if_splits)
  with "0.prems"(2,3) show ?case by blast
next
  case (Suc fuel)
  show ?case
  proof (cases "goal \<in> set frontier")
    case True
    with Suc.prems(1) have "r = d" by simp
    with Suc.prems(2,3) show ?thesis by blast
  next
    case False
    let ?v = "visited @ frontier"
    let ?n = "remdups (filter (\<lambda>q. q \<notin> set ?v) (concat (map (walkable_moves s) frontier)))"
    from False Suc.prems(1) have rec: "bfs_levels s goal fuel ?v ?n (Suc d) = Some r"
      by (simp split: if_splits)
    have next_iff: "p \<in> set ?n \<longleftrightarrow> p \<notin> set ?v \<and> (\<exists>q \<in> set frontier. step_ok s q p)" for p
      by (auto simp: walkable_moves_iff)
    have a: "goal \<notin> set ?v"
      using False Suc.prems(2) by simp
    have b: "\<forall>k < Suc d. \<forall>p. reach s start k p \<longrightarrow> p \<in> set ?v"
    proof (intro allI impI)
      fix k p assume k: "k < Suc d" and rc: "reach s start k p"
      show "p \<in> set ?v"
      proof (cases "k = d")
        case True
        with rc Suc.prems(4) show ?thesis by simp
      next
        case False
        with k have "k < d" by simp
        with rc Suc.prems(3) show ?thesis by simp
      qed
    qed
    have e: "\<forall>q \<in> set ?v. \<forall>p. step_ok s q p \<longrightarrow> p \<in> set ?v \<union> set ?n"
    proof (intro ballI allI impI)
      fix q p assume q: "q \<in> set ?v" and st: "step_ok s q p"
      show "p \<in> set ?v \<union> set ?n"
      proof (cases "q \<in> set visited")
        case True
        with Suc.prems(5) st show ?thesis by auto
      next
        case False
        with q have "q \<in> set frontier" by simp
        with st show ?thesis unfolding Un_iff next_iff by blast
      qed
    qed
    have c: "\<forall>p. reach s start (Suc d) p \<longrightarrow> p \<in> set ?v \<union> set ?n"
    proof (intro allI impI)
      fix p assume "reach s start (Suc d) p"
      then obtain q where q: "reach s start d q" "step_ok s q p"
        using reach_Suc by blast
      from q(1) Suc.prems(4) have "q \<in> set ?v" by simp
      with e q(2) show "p \<in> set ?v \<union> set ?n" by blast
    qed
    from Suc.IH [OF rec a b c e] show ?thesis .
  qed
qed

lemma bfs_distance_lower_bound:
  assumes "bfs_distance s start goal = Some d"
      and "route_ok s path" and "path \<noteq> []" and "hd path = start" and "last path = goal"
  shows "Suc d \<le> length path"
proof (rule ccontr)
  assume "\<not> Suc d \<le> length path"
  then have less: "length path - 1 < d" using assms(3) by (cases path) auto
  have "reach s start (length path - 1) goal"
    unfolding reach_def using assms(2-5) by (intro exI [of _ path]) (cases path, auto)
  moreover from assms(1) have run: "bfs_levels s goal (total_cells s) [] [start] 0 = Some d"
    by (simp add: bfs_distance_def split: if_splits)
  have "\<forall>k < d. \<not> reach s start k goal"
    using run by (rule bfs_levels_lower_bound) (auto dest: reach_0)
  ultimately show False using less by blast
qed

lemma step_ok_adjacent8: "step_ok s a b \<Longrightarrow> adjacent8 a b"
  using collectNeighbors_props(1,6,7) [of b s a]
  by (auto simp: step_ok_def adjacent8_def)

subsection \<open>Rebuilding the obstacle grid\<close>

lemma rect_nth: "rect obs h w \<Longrightarrow> z < h \<Longrightarrow> length (obs ! z) = w"
  unfolding rect_def using nth_mem by blast

lemma rect_block_cell:
  assumes "rect obs h w"
  shows "rect (block_cell obs z x) h w"
proof (cases "z < length obs")
  case True
  then have "length (obs ! z) = w"
    using assms by (simp add: rect_def)
  with assms show ?thesis
    unfolding rect_def block_cell_def
    by (auto dest!: set_update_subset_insert [THEN subsetD])
next
  case False
  then have "block_cell obs z x = obs" by (simp add: block_cell_def list_update_beyond)
  with assms show ?thesis by simp
qed

lemma nth_block_cell:
  assumes "rect obs h w" and "z' < h" and "x' < w"
  shows "block_cell obs z x ! z' ! x' = (if z' = z \<and> x' = x then 1 else obs ! z' ! x')"
proof -
  have len: "length obs = h"
    using assms(1) by (simp add: rect_def)
  have row: "length (obs ! z') = w"
    using assms(1,2) by (rule rect_nth)
  show ?thesis
  proof (cases "z' = z")
    case True
    with assms(2,3) len row show ?thesis
      by (simp add: block_cell_def nth_list_update)
  next
    case False
    with assms(2) len show ?thesis
      by (simp add: block_cell_def)
  qed
qed

lemma rect_clear_obstacles: "rect obs h w \<Longrightarrow> rect (clear_obstacles obs) h w"
  by (auto simp: rect_def clear_obstacles_def)

lemma nth_clear_obstacles:
  assumes "rect obs h w" and "z < h" and "x < w"
  shows "clear_obstacles obs ! z ! x = 0"
proof -
  have "length obs = h" using assms(1) by (simp add: rect_def)
  with assms(2,3) rect_nth [OF assms(1,2)] show ?thesis
    by (simp add: clear_obstacles_def)
qed

lemma terrain_cell_eq:
  "terrain_cell t (terrain_width t) (terrain_height t) z x obs =
     (if terrain_blocks t (int x) (int z) then block_cell obs z x else obs)"
  by (auto simp: terrain_cell_def terrain_blocks_def Let_def)

lemma terrain_row:
  assumes "rect obs h w"
  shows "rect (fold (terrain_cell t (terrain_width t) (terrain_height t) z) xs obs) h w \<and>
         (\<forall>z' < h. \<forall>x' < w.
            fold (terrain_cell t (terrain_width t) (terrain_height t) z) xs obs ! z' ! x' \<noteq> 0 \<longleftrightarrow>
              obs ! z' ! x' \<noteq> 0 \<or> (z' = z \<and> x' \<in> set xs \<and> terrain_blocks t (int x') (int z')))"
  using assms
proof (induction xs arbitrary: obs)
  case Nil
  then show ?case by simp
next
  case (Cons x xs)
  let ?o = "terrain_cell t (terrain_width t) (terrain_height t) z x obs"
  have r: "rect ?o h w"
    using Cons.prems by (simp add: terrain_cell_eq rect_block_cell)
  have cell: "?o ! z' ! x' \<noteq> 0 \<longleftrightarrow>
      obs ! z' ! x' \<noteq> 0 \<or> (z' = z \<and> x' = x \<and> terrain_blocks t (int x') (int z'))"
    if "z' < h" "x' < w" for z' x'
    using that by (auto simp: terrain_cell_eq nth_block_cell [OF Cons.prems])
  from Cons.IH [OF r] cell show ?case
    by (simp del: fold_simps add: fold_Cons [unfolded comp_def]) blast
qed

lemma terrain_rows:
  assumes "rect obs h w"
  shows "rect (fold (\<lambda>z. fold (terrain_cell t (terrain_width t) (terrain_height t) z) xs) zs obs) h w \<and>
         (\<forall>z' < h. \<forall>x' < w.
            fold (\<lambda>z. fold (terrain_cell t (terrain_width t) (terrain_height t) z) xs) zs obs
              ! z' ! x' \<noteq> 0 \<longleftrightarrow>
              obs ! z' ! x' \<noteq> 0 \<or> (z' \<in> set zs \<and> x' \<in> set xs \<and> terrain_blocks t (int x') (int z')))"
  using assms
proof (induction zs arbitrary: obs)
  case Nil
  then show ?case by simp
next
  case (Cons z zs)
  let ?o = "fold (terrain_cell t (terrain_width t) (terrain_height t) z) xs obs"
  note row = terrain_row [OF Cons.prems, of t z xs]
  from row have r: "rect ?o h w" by blast
  from Cons.IH [OF r] row show ?case
    by simp blast
qed

lemma building_cell_nth:
  assumes "rect obs (nat (m_height s)) (nat (m_width s))"
      and "z' < nat (m_height s)" and "x' < nat (m_width s)"
  shows "building_cell s cell obs ! z' ! x' \<noteq> 0 \<longleftrightarrow>
           obs ! z' ! x' \<noteq> 0 \<or>
           (cpp_round (float_sub (float_of_int (fst cell)) (m_gridOffsetX s)) = int x' \<and>
            cpp_round (float_sub (float_of_int (snd cell)) (m_gridOffsetZ s)) = int z')"
proof -
  let ?gx = "cpp_round (float_sub (float_of_int (fst cell)) (m_gridOffsetX s))"
  let ?gz = "cpp_round (float_sub (float_of_int (snd cell)) (m_gridOffsetZ s))"
  show ?thesis
  proof (cases "?gx \<ge> 0 \<and> ?gx < m_width s \<and> ?gz \<ge> 0 \<and> ?gz < m_height s")
    case True
    have "building_cell s cell obs = block_cell obs (nat ?gz) (nat ?gx)"
      unfolding building_cell_def Let_def by (rule if_P [OF True])
    moreover have "z' = nat ?gz \<and> x' = nat ?gx \<longleftrightarrow> ?gx = int x' \<and> ?gz = int z'"
      using True by auto
    ultimately show ?thesis
      using nth_block_cell [OF assms, of "nat ?gz" "nat ?gx"] by auto
  next
    case False
    have "building_cell s cell obs = obs"
      unfolding building_cell_def Let_def by (rule if_not_P [OF False])
    moreover have "\<not> (?gx = int x' \<and> ?gz = int z')"
      using False assms(2,3) by auto
    ultimately show ?thesis by auto
  qed
qed

lemma rect_building_cell:
  "rect obs h w \<Longrightarrow> rect (building_cell s cell obs) h w"
  by (simp add: building_cell_def Let_def rect_block_cell)

lemma building_cells:
  assumes "rect obs (nat (m_height s)) (nat (m_width s))"
  shows "rect (fold (building_cell s) cells obs) (nat (m_height s)) (nat (m_width s)) \<and>
         (\<forall>z' < nat (m_height s). \<forall>x' < nat (m_width s).
            fold (building_cell s) cells obs ! z' ! x' \<noteq> 0 \<longleftrightarrow>
              obs ! z' ! x' \<noteq> 0 \<or>
              (\<exists>cell \<in> set cells. cpp_round (float_sub (float_of_int (fst cell)) (m_gridOffsetX s)) = int x' \<and>
                                  cpp_round (float_sub (float_of_int (snd cell)) (m_gridOffsetZ s)) = int z'))"
  using assms
proof (induction cells arbitrary: obs)
  case Nil
  then show ?case by simp
next
  case (Cons c cells)
  note r = rect_building_cell [OF Cons.prems, of s c]
  from Cons.IH [OF r] building_cell_nth [OF Cons.prems, of _ _ c] show ?case
    by (simp; blast)
qed

lemma building_pass_nth:
  assumes "rect obs (nat (m_height s)) (nat (m_width s))"
  shows "rect (building_pass s buildings obs) (nat (m_height s)) (nat (m_width s)) \<and>
         (\<forall>z' < nat (m_height s). \<forall>x' < nat (m_width s).
            building_pass s buildings obs ! z' ! x' \<noteq> 0 \<longleftrightarrow>
              obs ! z' ! x' \<noteq> 0 \<or>
              (\<exists>cells \<in> set buildings. \<exists>cell \<in> set cells.
                 cpp_round (float_sub (float_of_int (fst cell)) (m_gridOffsetX s)) = int x' \<and>
                 cpp_round (float_sub (float_of_int (snd cell)) (m_gridOffsetZ s)) = int z'))"
  using assms unfolding building_pass_def
proof (induction buildings arbitrary: obs)
  case Nil
  then show ?case by simp
next
  case (Cons b buildings)
  note one = building_cells [OF Cons.prems, of b]
  from one have r: "rect (fold (building_cell s) b obs) (nat (m_height s)) (nat (m_width s))"
    by blast
  from Cons.IH [OF r] one show ?case
    by (simp; blast)
qed

lemma terrain_pass_nth:
  assumes "rect obs (nat (m_height s)) (nat (m_width s))"
  shows "rect (terrain_pass s t obs) (nat (m_height s)) (nat (m_width s)) \<and>
         (\<forall>z' < nat (m_height s). \<forall>x' < nat (m_width s).
            terrain_pass s t obs ! z' ! x' \<noteq> 0 \<longleftrightarrow>
              obs ! z' ! x' \<noteq> 0 \<or> terrain_blocks t (int x') (int z'))"
  using terrain_rows [OF assms, of t "[0..<nat (m_width s)]" "[0..<nat (m_height s)]"]
  unfolding terrain_pass_def by simp

subsection \<open>A direct edit does not survive a rebuild\<close>

lemma clear_obstacles_setObstacle:
  "clear_obstacles (m_obstacles (setObstacle s x y b)) = clear_obstacles (m_obstacles s)"
proof (cases "x \<ge> 0 \<and> x < m_width s \<and> y \<ge> 0 \<and> y < m_height s")
  case False
  have "setObstacle s x y b = s"
    unfolding setObstacle_def by (rule if_not_P [OF False])
  then show ?thesis by simp
next
  case True
  let ?obs = "m_obstacles s"
  let ?row = "(?obs ! nat y)[nat x := (if b then 1 else 0)]"
  have eq: "m_obstacles (setObstacle s x y b) = ?obs[nat y := ?row]"
    using True by (simp add: setObstacle_def)
  show ?thesis
  proof (cases "nat y < length ?obs")
    case False
    then show ?thesis unfolding eq by (simp add: list_update_beyond)
  next
    case True
    have "clear_obstacles (?obs[nat y := ?row]) =
          (clear_obstacles ?obs)[nat y := replicate (length ?row) 0]"
      by (simp add: clear_obstacles_def map_update)
    also have "replicate (length ?row) 0 = clear_obstacles ?obs ! nat y"
      using True by (simp add: clear_obstacles_def)
    also have "(clear_obstacles ?obs)[nat y := clear_obstacles ?obs ! nat y] = clear_obstacles ?obs"
      by (rule list_update_id)
    finally show ?thesis unfolding eq .
  qed
qed

lemma updateBuildingObstacles_setObstacle:
  assumes "m_obstaclesDirty s"
  shows "updateBuildingObstacles (setObstacle s x y b) t buildings =
         updateBuildingObstacles s t buildings"
proof -
  obtain obs where s': "setObstacle s x y b = s\<lparr>m_obstacles := obs\<rparr>"
    by (cases "x \<ge> 0 \<and> x < m_width s \<and> y \<ge> 0 \<and> y < m_height s")
       (auto simp: setObstacle_def intro: that [of "m_obstacles s"])
  have c: "clear_obstacles obs = clear_obstacles (m_obstacles s)"
    using clear_obstacles_setObstacle [of s x y b] unfolding s' by simp
  have t: "terrain_pass (s\<lparr>m_obstacles := obs\<rparr>) = terrain_pass s"
    by (intro ext) (simp add: terrain_pass_def)
  have bc: "building_cell (s\<lparr>m_obstacles := obs\<rparr>) = building_cell s"
    by (intro ext) (simp add: building_cell_def)
  have bp: "building_pass (s\<lparr>m_obstacles := obs\<rparr>) = building_pass s"
    by (intro ext) (simp add: building_pass_def bc)
  show ?thesis
    unfolding s' using assms by (simp add: updateBuildingObstacles_def Let_def c t bp)
qed

subsection \<open>Closed cells\<close>

lemma isClosed_setGCost [simp]: "isClosed (setGCost s i g c) j g' = isClosed s j g'"
  by (simp add: isClosed_def setGCost_def)

lemma isClosed_setParent [simp]: "isClosed (setParent s i g p) j g' = isClosed s j g'"
  by (simp add: isClosed_def setParent_def)

lemma isClosed_pushOpenNode [simp]: "isClosed (pushOpenNode s n) j g' = isClosed s j g'"
  by (simp add: isClosed_def pushOpenNode_def Let_def)

lemma isClosed_popOpenNode: "popOpenNode s = Some (n, s') \<Longrightarrow> isClosed s' j g' = isClosed s j g'"
  by (erule popOpenNode_state) (simp add: isClosed_def)

lemma isClosed_setClosed:
  "isClosed (setClosed s i g) j g \<longleftrightarrow>
     (j = i \<and> 0 \<le> i \<and> nat i < length (m_closedGeneration s)) \<or> isClosed s j g"
proof (cases "0 \<le> i \<and> nat i < length (m_closedGeneration s)")
  case False
  have "setClosed s i g = s" unfolding setClosed_def by (rule if_not_P [OF False])
  with False show ?thesis by auto
next
  case True
  show ?thesis
  proof (cases "j = i")
    case True
    with \<open>0 \<le> i \<and> nat i < length (m_closedGeneration s)\<close> show ?thesis
      by (simp add: isClosed_def setClosed_def)
  next
    case False
    show ?thesis
    proof (cases "0 \<le> j")
      case True
      with False \<open>0 \<le> i \<and> nat i < length (m_closedGeneration s)\<close> show ?thesis
        by (simp add: isClosed_def setClosed_def nth_list_update nat_index_eq)
    next
      case False
      with \<open>j \<noteq> i\<close> show ?thesis by (simp add: isClosed_def)
    qed
  qed
qed

lemma popOpenNode_rest:
  assumes "popOpenNode s = Some (n, s')"
  shows "set (m_openHeap s) \<subseteq> insert n (set (m_openHeap s'))"
proof -
  from assms obtain rest where h: "m_openHeap s = n # rest"
    by (auto simp: popOpenNode_def Let_def split: list.splits if_splits)
  show ?thesis
  proof (cases "rest = []")
    case True
    with h show ?thesis by simp
  next
    case False
    then have bl: "butlast (m_openHeap s) = n # butlast rest" and la: "last (m_openHeap s) = last rest"
      using h by simp_all
    have "m_openHeap s' = sift_down ((n # butlast rest)[0 := last rest]) 0"
      using assms h bl la by (auto simp: popOpenNode_def Let_def)
    then have "set (m_openHeap s') = set (last rest # butlast rest)"
      by (simp add: set_sift_down)
    also have "\<dots> = set (butlast rest @ [last rest])" by auto
    also have "\<dots> = set rest" using False by simp
    finally show ?thesis using h by auto
  qed
qed

subsection \<open>One relaxation\<close>

lemma relax_step_reads:
  assumes inv: "search_inv s g si" and nb: "n \<in> set (collectNeighbors s a)"
      and s3: "s3 = pushOpenNode (setParent (setGCost s (toIndex s n) g c) (toIndex s n) g p)
                     (QueueNode (toIndex s n) f c)"
  shows "getGCost s3 j g = (if j = toIndex s n then c else getGCost s j g)"
    and "hasParent s3 j g \<longleftrightarrow> j = toIndex s n \<or> hasParent s j g"
    and "getParent s3 j g = (if j = toIndex s n then p else getParent s j g)"
    and "set (m_openHeap s3) = insert (QueueNode (toIndex s n) f c) (set (m_openHeap s))"
    and "isClosed s3 j g = isClosed s j g"
    and "same_grid s s3"
proof -
  let ?ni = "toIndex s n"
  note sz = search_inv_sizes [OF inv]
  note np = collectNeighbors_props [OF nb]
  have rng: "0 \<le> ?ni" "nat ?ni < total_cells s"
    using toIndex_range [of n s] np by simp_all
  have sh1: "same_shape s (setGCost s ?ni g c)" by simp
  show "getGCost s3 j g = (if j = ?ni then c else getGCost s j g)"
    unfolding s3 using rng sz by (simp add: getGCost_setGCost)
  show "hasParent s3 j g \<longleftrightarrow> j = ?ni \<or> hasParent s j g"
    unfolding s3 using rng sz sh1 by (simp add: hasParent_setParent same_shape_def)
  show "getParent s3 j g = (if j = ?ni then p else getParent s j g)"
    unfolding s3 using rng sz sh1 by (simp add: getParent_setParent same_shape_def)
  show "set (m_openHeap s3) = insert (QueueNode ?ni f c) (set (m_openHeap s))"
    unfolding s3 by (simp add: set_pushOpenNode)
  show "isClosed s3 j g = isClosed s j g"
    unfolding s3 by simp
  show "same_grid s s3"
    unfolding s3
    by (meson same_grid_trans same_grid_setGCost same_grid_setParent same_grid_pushOpenNode)
qed

subsection \<open>The neighbours of an expanded cell\<close>

lemma frontier_relax_neighbors:
  assumes "search_inv s g si"
      and "\<forall>n \<in> set ns. n \<in> set (collectNeighbors s (toPoint s (node_index cur)))"
      and "getGCost s (node_index cur) g \<le> gCost cur"
      and "open_ok s g"
      and "\<forall>n \<in> set (m_openHeap s). gCost n \<le> k" and "gCost cur + 1 \<le> k"
  shows "open_ok (relax_neighbors s cur e g ns) g \<and>
         (\<forall>n \<in> set (m_openHeap (relax_neighbors s cur e g ns)). gCost n \<le> k) \<and>
         (\<forall>i. getGCost (relax_neighbors s cur e g ns) i g \<le> getGCost s i g) \<and>
         (\<forall>i. isClosed (relax_neighbors s cur e g ns) i g = isClosed s i g) \<and>
         (\<forall>n \<in> set ns. isWalkable s (px n) (py n) \<longrightarrow>
            isClosed (relax_neighbors s cur e g ns) (toIndex s n) g \<or>
            getGCost (relax_neighbors s cur e g ns) (toIndex s n) g \<le> gCost cur + 1)"
  using assms
proof (induction ns arbitrary: s)
  case Nil
  then show ?case by simp
next
  case (Cons n ns)
  let ?p = "node_index cur"
  let ?ni = "toIndex s n"
  define s3 where "s3 = pushOpenNode
       (setParent (setGCost s ?ni g (gCost cur + 1)) ?ni g ?p)
       (QueueNode ?ni (gCost cur + 1 + calculateHeuristic n e) (gCost cur + 1))"
  define R where "R = relax_neighbors s cur e g (n # ns)"
  note inv = Cons.prems(1) and cost = Cons.prems(3) and op = Cons.prems(4)
    and hb = Cons.prems(5) and kb = Cons.prems(6)
  from Cons.prems(2) have nb: "n \<in> set (collectNeighbors s (toPoint s ?p))"
    and rest: "\<forall>m \<in> set ns. m \<in> set (collectNeighbors s (toPoint s ?p))"
    by simp_all
  have "open_ok R g \<and> (\<forall>m \<in> set (m_openHeap R). gCost m \<le> k) \<and>
        (\<forall>i. getGCost R i g \<le> getGCost s i g) \<and> (\<forall>i. isClosed R i g = isClosed s i g) \<and>
        (\<forall>m \<in> set (n # ns). isWalkable s (px m) (py m) \<longrightarrow>
           isClosed R (toIndex s m) g \<or> getGCost R (toIndex s m) g \<le> gCost cur + 1)"
  proof (cases "isWalkable s (px n) (py n) \<and> \<not> isClosed s ?ni g \<and>
                gCost cur + 1 < getGCost s ?ni g")
    case False
    then have R: "R = relax_neighbors s cur e g ns"
      unfolding R_def by auto
    from Cons.IH [OF inv rest cost op hb kb]
    have ih0: "open_ok R g \<and> (\<forall>m \<in> set (m_openHeap R). gCost m \<le> k) \<and>
        (\<forall>i. getGCost R i g \<le> getGCost s i g) \<and> (\<forall>i. isClosed R i g = isClosed s i g) \<and>
        (\<forall>m \<in> set ns. isWalkable s (px m) (py m) \<longrightarrow>
           isClosed R (toIndex s m) g \<or> getGCost R (toIndex s m) g \<le> gCost cur + 1)"
      unfolding R .
    then have ih3: "\<forall>i. getGCost R i g \<le> getGCost s i g"
      and ih4: "\<forall>i. isClosed R i g = isClosed s i g"
      by blast+
    have "isClosed R ?ni g \<or> getGCost R ?ni g \<le> gCost cur + 1"
      if "isWalkable s (px n) (py n)"
    proof (cases "isClosed s ?ni g")
      case True
      with ih4 show ?thesis by simp
    next
      case nc: False
      with False that have "getGCost s ?ni g \<le> gCost cur + 1" by simp
      with ih3 [THEN spec, of ?ni] show ?thesis by simp
    qed
    then have "isWalkable s (px n) (py n) \<longrightarrow>
        isClosed R ?ni g \<or> getGCost R ?ni g \<le> gCost cur + 1"
      by blast
    with ih0 show ?thesis
      unfolding list.set ball_simps by blast
  next
    case True
    then have walk: "isWalkable s (px n) (py n)"
      and better: "gCost cur + 1 < getGCost s ?ni g"
      by simp_all
    from True have R: "R = relax_neighbors s3 cur e g ns"
      unfolding R_def s3_def by simp
    note step = search_inv_relax_step [OF inv nb walk cost better,
        of "gCost cur + 1 + calculateHeuristic n e", folded s3_def]
    note rd = relax_step_reads [OF inv nb s3_def]
    have rest3: "\<forall>m \<in> set ns. m \<in> set (collectNeighbors s3 (toPoint s3 ?p))"
      using rest by (simp add: same_grid_collectNeighbors [OF rd(6)] same_grid_toPoint [OF rd(6)])
    have op3: "open_ok s3 g"
      unfolding open_ok_def
    proof (intro allI impI)
      fix i assume fin: "getGCost s3 i g < INT_MAX"
      show "isClosed s3 i g \<or>
            (\<exists>m \<in> set (m_openHeap s3). node_index m = i \<and> gCost m \<le> getGCost s3 i g)"
      proof (cases "i = ?ni")
        case True
        have "QueueNode ?ni (gCost cur + 1 + calculateHeuristic n e) (gCost cur + 1)
                \<in> set (m_openHeap s3)"
          unfolding rd(4) by simp
        moreover have "getGCost s3 i g = gCost cur + 1"
          using True by (simp add: rd(1))
        ultimately show ?thesis using True by force
      next
        case False
        then have eq: "getGCost s3 i g = getGCost s i g" by (simp add: rd(1))
        with fin op have "isClosed s i g \<or>
            (\<exists>m \<in> set (m_openHeap s). node_index m = i \<and> gCost m \<le> getGCost s i g)"
          unfolding open_ok_def by simp
        then show ?thesis
          unfolding rd(4) rd(5) eq by blast
      qed
    qed
    have hb3: "\<forall>m \<in> set (m_openHeap s3). gCost m \<le> k"
      unfolding rd(4) using hb kb by simp
    from Cons.IH [OF step(1) rest3 step(2) op3 hb3 kb]
    have ih0: "open_ok R g \<and> (\<forall>m \<in> set (m_openHeap R). gCost m \<le> k) \<and>
        (\<forall>i. getGCost R i g \<le> getGCost s3 i g) \<and> (\<forall>i. isClosed R i g = isClosed s3 i g) \<and>
        (\<forall>m \<in> set ns. isWalkable s3 (px m) (py m) \<longrightarrow>
           isClosed R (toIndex s3 m) g \<or> getGCost R (toIndex s3 m) g \<le> gCost cur + 1)"
      unfolding R .
    then have ih1: "open_ok R g" and ih2: "\<forall>m \<in> set (m_openHeap R). gCost m \<le> k"
      and ih3: "\<forall>i. getGCost R i g \<le> getGCost s3 i g"
      and ih4: "\<forall>i. isClosed R i g = isClosed s3 i g"
      and ih5: "\<forall>m \<in> set ns. isWalkable s3 (px m) (py m) \<longrightarrow>
           isClosed R (toIndex s3 m) g \<or> getGCost R (toIndex s3 m) g \<le> gCost cur + 1"
      by blast+
    have low: "getGCost s3 i g \<le> getGCost s i g" for i
      using better by (simp add: rd(1))
    have a: "\<forall>i. getGCost R i g \<le> getGCost s i g"
    proof
      fix i
      from ih3 [THEN spec, of i] low [of i] show "getGCost R i g \<le> getGCost s i g"
        by simp
    qed
    have b: "\<forall>i. isClosed R i g = isClosed s i g"
      using ih4 by (simp add: rd(5))
    have c: "\<forall>m \<in> set ns. isWalkable s (px m) (py m) \<longrightarrow>
           isClosed R (toIndex s m) g \<or> getGCost R (toIndex s m) g \<le> gCost cur + 1"
      using ih5 by (simp add: same_grid_isWalkable [OF rd(6)] same_grid_toIndex [OF rd(6)])
    have "getGCost R ?ni g \<le> getGCost s3 ?ni g"
      using ih3 by blast
    then have d: "getGCost R ?ni g \<le> gCost cur + 1"
      by (simp add: rd(1))
    from ih1 ih2 a b c d show ?thesis
      unfolding list.set ball_simps by blast
  qed
  then show ?case unfolding R_def .
qed

lemma links_relax_neighbors:
  assumes "search_inv s g si"
      and "\<forall>n \<in> set ns. n \<in> set (collectNeighbors s (toPoint s (node_index cur)))"
      and "getGCost s (node_index cur) g \<le> gCost cur"
      and "links_inv s g si" and "hasParent s (node_index cur) g"
  shows "links_inv (relax_neighbors s cur e g ns) g si"
  using assms
proof (induction ns arbitrary: s)
  case Nil
  then show ?case by simp
next
  case (Cons n ns)
  let ?p = "node_index cur"
  let ?ni = "toIndex s n"
  define s3 where "s3 = pushOpenNode
       (setParent (setGCost s ?ni g (gCost cur + 1)) ?ni g ?p)
       (QueueNode ?ni (gCost cur + 1 + calculateHeuristic n e) (gCost cur + 1))"
  note inv = Cons.prems(1) and cost = Cons.prems(3) and li = Cons.prems(4) and hp = Cons.prems(5)
  from Cons.prems(2) have nb: "n \<in> set (collectNeighbors s (toPoint s ?p))"
    and rest: "\<forall>m \<in> set ns. m \<in> set (collectNeighbors s (toPoint s ?p))"
    by simp_all
  show ?case
  proof (cases "isWalkable s (px n) (py n) \<and> \<not> isClosed s ?ni g \<and>
                gCost cur + 1 < getGCost s ?ni g")
    case False
    then have "relax_neighbors s cur e g (n # ns) = relax_neighbors s cur e g ns"
      by auto
    with Cons.IH [OF inv rest cost li hp] show ?thesis by simp
  next
    case True
    then have walk: "isWalkable s (px n) (py n)"
      and better: "gCost cur + 1 < getGCost s ?ni g"
      by simp_all
    from True have R: "relax_neighbors s cur e g (n # ns) = relax_neighbors s3 cur e g ns"
      unfolding s3_def by simp
    note step = search_inv_relax_step [OF inv nb walk cost better,
        of "gCost cur + 1 + calculateHeuristic n e", folded s3_def]
    note rd = relax_step_reads [OF inv nb s3_def]
    have rest3: "\<forall>m \<in> set ns. m \<in> set (collectNeighbors s3 (toPoint s3 ?p))"
      using rest by (simp add: same_grid_collectNeighbors [OF rd(6)] same_grid_toPoint [OF rd(6)])
    have hp3: "hasParent s3 ?p g"
      using hp by (simp add: rd(2))
    have li3: "links_inv s3 g si"
      unfolding links_inv_def
    proof (intro conjI ballI allI impI)
      fix m assume "m \<in> set (m_openHeap s3)"
      then consider "node_index m = ?ni" | "m \<in> set (m_openHeap s)"
        unfolding rd(4) by auto
      then show "hasParent s3 (node_index m) g"
      proof cases
        case 1
        then show ?thesis by (simp add: rd(2))
      next
        case 2
        with li have "hasParent s (node_index m) g" by (simp add: links_inv_def)
        then show ?thesis by (simp add: rd(2))
      qed
    next
      fix c assume c: "hasParent s3 c g \<and> c \<noteq> si"
      show "hasParent s3 (getParent s3 c g) g"
      proof (cases "c = ?ni")
        case True
        then have "getParent s3 c g = ?p" by (simp add: rd(3))
        with hp3 show ?thesis by simp
      next
        case False
        with c have "hasParent s c g" by (simp add: rd(2))
        with c li have "hasParent s (getParent s c g) g" by (simp add: links_inv_def)
        with False show ?thesis by (simp add: rd(2,3))
      qed
    qed
    from Cons.IH [OF step(1) rest3 step(2) li3 hp3] show ?thesis
      unfolding R .
  qed
qed

subsection \<open>One iteration of the main loop\<close>

lemma links_inv_heap_update:
  assumes "links_inv s g si" and "set h \<subseteq> set (m_openHeap s)"
  shows "links_inv (s\<lparr>m_openHeap := h\<rparr>) g si"
proof -
  have h: "hasParent (s\<lparr>m_openHeap := h\<rparr>) c g = hasParent s c g" for c
    by (simp add: hasParent_def)
  have p: "getParent (s\<lparr>m_openHeap := h\<rparr>) c g = getParent s c g" for c
    by (simp add: getParent_def hasParent_def)
  from assms show ?thesis
    unfolding links_inv_def h p by auto
qed

lemma links_search_body:
  assumes inv: "search_inv s g si" and li: "links_inv s g si"
      and body: "search_body s ei e g = (s', r)"
  shows "links_inv s' g si" and "r \<noteq> None \<Longrightarrow> hasParent s' ei g"
proof -
  have "links_inv s' g si \<and> (r \<noteq> None \<longrightarrow> hasParent s' ei g)"
  proof (cases "popOpenNode s")
    case None
    with body li show ?thesis by (simp add: search_body_def)
  next
    case (Some a)
    obtain cur s1 where a: "a = (cur, s1)" by (cases a)
    with Some have pop: "popOpenNode s = Some (cur, s1)" by simp
    note inv1 = search_inv_popOpenNode [OF inv pop]
    from pop obtain h where s1: "s1 = s\<lparr>m_openHeap := h\<rparr>"
      by (rule popOpenNode_state)
    with popOpenNode_entries(2) [OF pop] have sub: "set h \<subseteq> set (m_openHeap s)" by simp
    have li1: "links_inv s1 g si"
      unfolding s1 using li sub by (rule links_inv_heap_update)
    have "hasParent s (node_index cur) g"
      using li popOpenNode_entries(1) [OF pop] by (simp add: links_inv_def)
    then have hp1: "hasParent s1 (node_index cur) g"
      by (simp add: hasParent_popOpenNode [OF pop])
    let ?s2 = "setClosed s1 (node_index cur) g"
    have inv2: "search_inv ?s2 g si"
      using inv1 by (rule search_inv_setClosed)
    have li2: "links_inv ?s2 g si"
      using li1 by (simp add: links_inv_def)
    have hp2: "hasParent ?s2 (node_index cur) g"
      using hp1 by simp
    have "getGCost s (node_index cur) g \<le> gCost cur"
      using inv popOpenNode_entries(1) [OF pop] by (rule search_inv_heap)
    then have cost: "getGCost ?s2 (node_index cur) g \<le> gCost cur"
      by (simp add: getGCost_popOpenNode [OF pop])
    have li3: "links_inv (relax_neighbors ?s2 cur e g
                 (collectNeighbors ?s2 (toPoint ?s2 (node_index cur)))) g si"
      using inv2 _ cost li2 hp2 by (rule links_relax_neighbors) simp
    from body pop li1 li2 li3 hp2 show ?thesis
      by (auto simp: search_body_def Let_def split: if_splits)
  qed
  then show "links_inv s' g si" and "r \<noteq> None \<Longrightarrow> hasParent s' ei g"
    by blast+
qed

lemma closed_ok_step:
  assumes "closed_ok s g" and sg: "same_grid s s'"
      and keep: "\<forall>j. isClosed s j g \<longrightarrow> isClosed s' j g"
      and low: "\<forall>j. getGCost s' j g \<le> getGCost s j g"
      and new: "\<forall>c q. isClosed s' c g \<and> \<not> isClosed s c g \<and> step_ok s (toPoint s c) q \<longrightarrow>
                  isClosed s' (toIndex s q) g \<or> getGCost s' (toIndex s q) g < INT_MAX"
  shows "closed_ok s' g"
  unfolding closed_ok_def
proof (intro allI impI)
  fix c q assume a: "isClosed s' c g \<and> step_ok s' (toPoint s' c) q"
  then have st: "step_ok s (toPoint s c) q"
    by (simp add: step_ok_same_grid [OF sg] same_grid_toPoint [OF sg])
  have "isClosed s' (toIndex s q) g \<or> getGCost s' (toIndex s q) g < INT_MAX"
  proof (cases "isClosed s c g")
    case True
    with st assms(1) have "isClosed s (toIndex s q) g \<or> getGCost s (toIndex s q) g < INT_MAX"
      unfolding closed_ok_def by blast
    with keep low [THEN spec, of "toIndex s q"] show ?thesis by auto
  next
    case False
    with a st new show ?thesis by blast
  qed
  then show "isClosed s' (toIndex s' q) g \<or> getGCost s' (toIndex s' q) g < INT_MAX"
    by (simp add: same_grid_toIndex [OF sg])
qed

lemma frontier_search_body:
  assumes inv: "search_inv s g si" and li: "links_inv s g si"
      and fr: "frontier_inv s g si ei k"
      and body: "search_body s ei e g = (s', None)"
      and kb: "k + 1 < INT_MAX"
  shows "frontier_inv s' g si ei (k + 1)"
proof -
  from fr have f1: "getGCost s si g < INT_MAX" and f2: "\<not> isClosed s ei g"
    and f3: "\<forall>n \<in> set (m_openHeap s). gCost n \<le> k"
    and f4: "open_ok s g" and f5: "closed_ok s g"
    by (simp_all add: frontier_inv_def)
  show ?thesis
  proof (cases "popOpenNode s")
    case None
    with body have "s' = s" by (simp add: search_body_def)
    with f1 f2 f3 f4 f5 show ?thesis
      by (auto simp: frontier_inv_def)
  next
    case (Some a)
    obtain cur s1 where a: "a = (cur, s1)" by (cases a)
    with Some have pop: "popOpenNode s = Some (cur, s1)" by simp
    let ?idx = "node_index cur"
    note mem = popOpenNode_entries(1) [OF pop]
    note sub = popOpenNode_entries(2) [OF pop]
    note rest = popOpenNode_rest [OF pop]
    note gc1 = getGCost_popOpenNode [OF pop]
    note cl1 = isClosed_popOpenNode [OF pop]
    note sg1 = same_grid_popOpenNode [OF pop]
    note inv1 = search_inv_popOpenNode [OF inv pop]
    have hb1: "\<forall>n \<in> set (m_openHeap s1). gCost n \<le> k + 1"
      using f3 sub by fastforce
    have live: "\<exists>n \<in> set (m_openHeap s1). node_index n = i \<and> gCost n \<le> getGCost s i g"
      if "getGCost s i g < INT_MAX" "\<not> isClosed s i g"
         "i = ?idx \<Longrightarrow> gCost cur \<le> getGCost s i g \<Longrightarrow> False" for i
    proof -
      from f4 that(1,2) obtain n where n: "n \<in> set (m_openHeap s)" "node_index n = i"
        "gCost n \<le> getGCost s i g"
        unfolding open_ok_def by blast
      with that(3) have "n \<noteq> cur" by blast
      with n(1) rest have "n \<in> set (m_openHeap s1)" by blast
      with n(2,3) show ?thesis by blast
    qed
    have dead: "frontier_inv s1 g si ei (k + 1)"
      if d: "getGCost s1 ?idx g < gCost cur \<or> isClosed s1 ?idx g"
    proof -
      have op1: "open_ok s1 g"
        unfolding open_ok_def
      proof (intro allI impI)
        fix i assume "getGCost s1 i g < INT_MAX"
        then have fin: "getGCost s i g < INT_MAX" by (simp add: gc1)
        show "isClosed s1 i g \<or>
              (\<exists>n \<in> set (m_openHeap s1). node_index n = i \<and> gCost n \<le> getGCost s1 i g)"
        proof (cases "isClosed s i g")
          case True
          then show ?thesis by (simp add: cl1)
        next
          case False
          have "\<exists>n \<in> set (m_openHeap s1). node_index n = i \<and> gCost n \<le> getGCost s i g"
            using fin False
          proof (rule live)
            assume "i = ?idx" "gCost cur \<le> getGCost s i g"
            with d False show False by (simp add: gc1 cl1)
          qed
          then show ?thesis by (simp add: gc1)
        qed
      qed
      have co1: "closed_ok s1 g"
        using f5 sg1 by (rule closed_ok_step) (auto simp: gc1 cl1)
      from f1 f2 hb1 op1 co1 show ?thesis
        by (simp add: frontier_inv_def gc1 cl1)
    qed
    define s2 where "s2 = setClosed s1 ?idx g"
    define R where "R = relax_neighbors s2 cur e g (collectNeighbors s2 (toPoint s2 ?idx))"
    have expand: "frontier_inv R g si ei (k + 1)"
      if nd: "\<not> getGCost s1 ?idx g < gCost cur" "\<not> isClosed s1 ?idx g" and ne: "?idx \<noteq> ei"
    proof -
      have "hasParent s ?idx g"
        using li mem by (simp add: links_inv_def)
      then have "0 \<le> ?idx" "nat ?idx < length (m_parentGeneration s)"
        by (simp_all add: hasParent_def)
      moreover have "length (m_closedGeneration s1) = length (m_parentGeneration s)"
        using search_inv_sizes(1) [OF inv1] search_inv_sizes(4) [OF inv]
          same_grid_total_cells [OF sg1] by simp
      ultimately have rng: "0 \<le> ?idx" "nat ?idx < length (m_closedGeneration s1)"
        by simp_all
      have cl2: "isClosed s2 j g \<longleftrightarrow> j = ?idx \<or> isClosed s j g" for j
        unfolding s2_def using rng by (simp add: isClosed_setClosed cl1)
      have gc2: "getGCost s2 j g = getGCost s j g" for j
        unfolding s2_def by (simp add: gc1)
      have heap2: "m_openHeap s2 = m_openHeap s1"
        unfolding s2_def by simp
      have sg2: "same_grid s s2"
        unfolding s2_def using sg1 same_grid_setClosed by (rule same_grid_trans)
      have inv2: "search_inv s2 g si"
        unfolding s2_def using inv1 by (rule search_inv_setClosed)
      have "getGCost s ?idx g \<le> gCost cur"
        using inv mem by (rule search_inv_heap)
      then have cost2: "getGCost s2 ?idx g \<le> gCost cur"
        by (simp add: gc2)
      have op2: "open_ok s2 g"
        unfolding open_ok_def
      proof (intro allI impI)
        fix i assume "getGCost s2 i g < INT_MAX"
        then have fin: "getGCost s i g < INT_MAX" by (simp add: gc2)
        show "isClosed s2 i g \<or>
              (\<exists>n \<in> set (m_openHeap s2). node_index n = i \<and> gCost n \<le> getGCost s2 i g)"
        proof (cases "i = ?idx \<or> isClosed s i g")
          case True
          then show ?thesis by (simp add: cl2)
        next
          case False
          then have "\<not> isClosed s i g" "i \<noteq> ?idx" by simp_all
          with fin have "\<exists>n \<in> set (m_openHeap s1). node_index n = i \<and> gCost n \<le> getGCost s i g"
            by (intro live) simp_all
          then show ?thesis by (simp add: gc2 heap2)
        qed
      qed
      have hb2: "\<forall>n \<in> set (m_openHeap s2). gCost n \<le> k + 1"
        using hb1 by (simp add: heap2)
      have kb2: "gCost cur + 1 \<le> k + 1"
        using f3 mem by simp
      have nbs: "\<forall>n \<in> set (collectNeighbors s2 (toPoint s2 ?idx)).
                   n \<in> set (collectNeighbors s2 (toPoint s2 ?idx))"
        by simp
      from frontier_relax_neighbors [OF inv2 nbs cost2 op2 hb2 kb2, where e = e, folded R_def]
      have r0: "open_ok R g \<and> (\<forall>n \<in> set (m_openHeap R). gCost n \<le> k + 1) \<and>
         (\<forall>i. getGCost R i g \<le> getGCost s2 i g) \<and> (\<forall>i. isClosed R i g = isClosed s2 i g) \<and>
         (\<forall>n \<in> set (collectNeighbors s2 (toPoint s2 ?idx)). isWalkable s2 (px n) (py n) \<longrightarrow>
            isClosed R (toIndex s2 n) g \<or> getGCost R (toIndex s2 n) g \<le> gCost cur + 1)" .
      then have opR: "open_ok R g" and hbR: "\<forall>n \<in> set (m_openHeap R). gCost n \<le> k + 1"
        and gcR: "\<forall>i. getGCost R i g \<le> getGCost s i g"
        and clR: "\<forall>i. isClosed R i g \<longleftrightarrow> i = ?idx \<or> isClosed s i g"
        and nbR: "\<forall>n \<in> set (collectNeighbors s (toPoint s ?idx)). isWalkable s (px n) (py n) \<longrightarrow>
            isClosed R (toIndex s n) g \<or> getGCost R (toIndex s n) g \<le> gCost cur + 1"
        unfolding gc2 cl2 same_grid_collectNeighbors [OF sg2] same_grid_toPoint [OF sg2]
          same_grid_isWalkable [OF sg2] same_grid_toIndex [OF sg2]
        by blast+
      have sgR: "same_grid s R"
        unfolding R_def using sg2 same_grid_relax_neighbors by (rule same_grid_trans)
      have coR: "closed_ok R g"
        using f5 sgR
      proof (rule closed_ok_step)
        show "\<forall>j. isClosed s j g \<longrightarrow> isClosed R j g" using clR by simp
        show "\<forall>j. getGCost R j g \<le> getGCost s j g" by (rule gcR)
        show "\<forall>c q. isClosed R c g \<and> \<not> isClosed s c g \<and> step_ok s (toPoint s c) q \<longrightarrow>
                isClosed R (toIndex s q) g \<or> getGCost R (toIndex s q) g < INT_MAX"
        proof (intro allI impI)
          fix c q assume a: "isClosed R c g \<and> \<not> isClosed s c g \<and> step_ok s (toPoint s c) q"
          with clR have c: "c = ?idx" by blast
          from a have "q \<in> set (collectNeighbors s (toPoint s ?idx))" "isWalkable s (px q) (py q)"
            unfolding c by (simp_all add: step_ok_def)
          with nbR have "isClosed R (toIndex s q) g \<or> getGCost R (toIndex s q) g \<le> gCost cur + 1"
            by blast
          with kb2 kb show "isClosed R (toIndex s q) g \<or> getGCost R (toIndex s q) g < INT_MAX"
            by auto
        qed
      qed
      have "getGCost R si g < INT_MAX"
        using gcR [THEN spec, of si] f1 by simp
      moreover have "\<not> isClosed R ei g"
        using clR f2 ne by simp
      ultimately show ?thesis
        using hbR opR coR by (simp add: frontier_inv_def)
    qed
    from body pop dead expand show ?thesis
      unfolding s2_def R_def
      by (auto simp: search_body_def Let_def split: if_splits)
  qed
qed

subsection \<open>The main loop\<close>

lemma search_body_break_cost:
  assumes "search_inv s g si" and "search_body s ei e g = (s', Some c)"
  shows "0 \<le> c"
proof -
  from assms(2) obtain cur s1 where pop: "popOpenNode s = Some (cur, s1)" and c: "c = gCost cur"
    by (auto simp: search_body_def Let_def split: option.splits if_splits prod.splits)
  have "getGCost s (node_index cur) g \<le> gCost cur"
    using assms(1) popOpenNode_entries(1) [OF pop] by (rule search_inv_heap)
  with search_inv_nonneg [OF assms(1), of "node_index cur"] c show ?thesis by simp
qed

lemma frontier_search_loop:
  assumes "search_inv s g si" and "links_inv s g si" and "frontier_inv s g si ei it"
      and "search_loop s ei e g mx it = (s', it', fc)" and "fc < 0" and "mx < INT_MAX"
  shows "frontier_inv s' g si ei it' \<and> (m_openHeap s' = [] \<or> mx \<le> it')"
  using assms
proof (induction s ei e g mx it arbitrary: s' it' fc rule: search_loop.induct)
  case (1 s ei e g mx it)
  show ?case
  proof (cases "m_openHeap s \<noteq> [] \<and> it < mx")
    case False
    with "1.prems"(4) have "s' = s" "it' = it" by (simp_all add: search_loop.simps)
    with False "1.prems"(3) show ?thesis by auto
  next
    case True
    obtain s1 r where body: "search_body s ei e g = (s1, r)" by (cases "search_body s ei e g")
    show ?thesis
    proof (cases r)
      case None
      with True body "1.prems"(4) have rec: "search_loop s1 ei e g mx (it + 1) = (s', it', fc)"
        by (simp add: search_loop.simps [of s])
      note inv1 = search_inv_search_body [OF "1.prems"(1) body]
      note li1 = links_search_body(1) [OF "1.prems"(1,2) body]
      have "it + 1 < INT_MAX" using True "1.prems"(6) by simp
      note fr1 = frontier_search_body [OF "1.prems"(1,2,3) body [unfolded None] this]
      from "1.IH" [OF True body [symmetric] None inv1 li1 fr1 rec "1.prems"(5,6)]
      show ?thesis .
    next
      case (Some c)
      with True body "1.prems"(4) have "fc = c" by (simp add: search_loop.simps [of s])
      moreover have "0 \<le> c"
        using "1.prems"(1) body [unfolded Some] by (rule search_body_break_cost)
      ultimately show ?thesis using "1.prems"(5) by simp
    qed
  qed
qed

lemma links_search_loop:
  assumes "search_inv s g si" and "links_inv s g si"
      and "search_loop s ei e g mx it = (s', it', fc)" and "0 \<le> fc"
  shows "links_inv s' g si \<and> hasParent s' ei g"
  using assms
proof (induction s ei e g mx it arbitrary: s' it' fc rule: search_loop.induct)
  case (1 s ei e g mx it)
  show ?case
  proof (cases "m_openHeap s \<noteq> [] \<and> it < mx")
    case False
    with "1.prems"(3,4) show ?thesis by (simp add: search_loop.simps)
  next
    case True
    obtain s1 r where body: "search_body s ei e g = (s1, r)" by (cases "search_body s ei e g")
    note inv1 = search_inv_search_body [OF "1.prems"(1) body]
    note li1 = links_search_body [OF "1.prems"(1,2) body]
    show ?thesis
    proof (cases r)
      case None
      with True body "1.prems"(3) have rec: "search_loop s1 ei e g mx (it + 1) = (s', it', fc)"
        by (simp add: search_loop.simps [of s])
      from "1.IH" [OF True body [symmetric] None inv1 li1(1) rec "1.prems"(4)] show ?thesis .
    next
      case (Some c)
      with True body "1.prems"(3) have "s' = s1" by (simp add: search_loop.simps [of s])
      with li1 Some show ?thesis by simp
    qed
  qed
qed

subsection \<open>The state in which the main loop is entered\<close>

lemma frontier_inv_initial:
  assumes ok: "scratch_ok s0"
      and ng: "nextGeneration (ensureWorkingBuffers s0) = (g, s1)"
      and walk: "isWalkable s0 (px start) (py start)"
  shows "frontier_inv
           (pushOpenNode
              (setParent (setGCost (s1\<lparr>m_openHeap := []\<rparr>) (toIndex s0 start) g 0)
                 (toIndex s0 start) g (toIndex s0 start))
              (QueueNode (toIndex s0 start) h 0)) g (toIndex s0 start) ei 0"
    and "links_inv
           (pushOpenNode
              (setParent (setGCost (s1\<lparr>m_openHeap := []\<rparr>) (toIndex s0 start) g 0)
                 (toIndex s0 start) g (toIndex s0 start))
              (QueueNode (toIndex s0 start) h 0)) g (toIndex s0 start)"
proof -
  let ?s = "ensureWorkingBuffers s0"
  let ?si = "toIndex s0 start"
  define sA where "sA = s1\<lparr>m_openHeap := []\<rparr>"
  define s5 where "s5 = pushOpenNode (setParent (setGCost sA ?si g 0) ?si g ?si) (QueueNode ?si h 0)"
  note ez = ensureWorkingBuffers_sizes [OF ok]
  note fresh = nextGeneration_fresh [OF ez(1) ng]
  note nr = nextGeneration_result [OF ng]
  have g0: "same_grid s0 sA"
    unfolding sA_def
    using same_grid_ensureWorkingBuffers [of s0] same_grid_nextGeneration [OF ng]
    by (simp add: same_grid_def)
  have cells: "total_cells sA = total_cells s0"
    using g0 by (rule same_grid_total_cells)
  have sz: "length (m_closedGeneration sA) = total_cells sA"
    "length (m_gCostGeneration sA) = total_cells sA"
    "length (m_gCostValues sA) = total_cells sA"
    "length (m_parentGeneration sA) = total_cells sA"
    "length (m_parentValues sA) = total_cells sA"
    using ez(2-6) nr(3-7) unfolding cells unfolding sA_def by simp_all
  have rng: "0 \<le> ?si" "nat ?si < total_cells sA"
    using toIndex_range [of start s0] isWalkable_in_grid [OF walk] unfolding cells by simp_all
  have noG: "getGCost sA i g = INT_MAX" for i
    using fresh(2) unfolding sA_def getGCost_def by (simp add: nth_mem)
  have noP: "\<not> hasParent sA i g" for i
    using fresh(3) unfolding sA_def hasParent_def by (simp add: nth_mem)
  have noC: "\<not> isClosed sA i g" for i
    using fresh(1) unfolding sA_def isClosed_def by (simp add: nth_mem)
  have sh1: "same_shape sA (setGCost sA ?si g 0)" by simp
  have gc5: "getGCost s5 j g = (if j = ?si then 0 else INT_MAX)" for j
    unfolding s5_def using rng sz by (simp add: getGCost_setGCost noG)
  have hp5: "hasParent s5 j g = (j = ?si)" for j
    unfolding s5_def using rng sz sh1 by (simp add: hasParent_setParent same_shape_def noP)
  have cl5: "\<not> isClosed s5 j g" for j
    unfolding s5_def by (simp add: noC)
  have heap5: "set (m_openHeap s5) = {QueueNode ?si h 0}"
    unfolding s5_def by (simp add: set_pushOpenNode sA_def)
  have "frontier_inv s5 g ?si ei 0"
    unfolding frontier_inv_def open_ok_def closed_ok_def
    by (auto simp: gc5 cl5 heap5 INT_MAX_def)
  then show "frontier_inv
           (pushOpenNode
              (setParent (setGCost (s1\<lparr>m_openHeap := []\<rparr>) (toIndex s0 start) g 0)
                 (toIndex s0 start) g (toIndex s0 start))
              (QueueNode (toIndex s0 start) h 0)) g (toIndex s0 start) ei 0"
    unfolding s5_def sA_def .
  have "links_inv s5 g ?si"
    unfolding links_inv_def by (simp add: hp5 heap5)
  then show "links_inv
           (pushOpenNode
              (setParent (setGCost (s1\<lparr>m_openHeap := []\<rparr>) (toIndex s0 start) g 0)
                 (toIndex s0 start) g (toIndex s0 start))
              (QueueNode (toIndex s0 start) h 0)) g (toIndex s0 start)"
    unfolding s5_def sA_def .
qed

subsection \<open>When the heap runs empty, every cell on a route from the start is closed\<close>

lemma closed_route:
  assumes fr: "frontier_inv s g si ei k" and empty: "m_openHeap s = []"
      and "route_ok s ps" and "ps \<noteq> []"
      and "isClosed s (toIndex s (hd ps)) g" and "0 \<le> px (hd ps)" and "px (hd ps) < m_width s"
  shows "isClosed s (toIndex s (last ps)) g"
  using assms(3-)
proof (induction ps rule: induct_list012)
  case 1
  then show ?case by simp
next
  case (2 a)
  then show ?case by simp
next
  case (3 a b rest)
  from "3.prems"(1) have st: "step_ok s a b" and r: "route_ok s (b # rest)" by simp_all
  from "3.prems"(3,4,5) have ca: "isClosed s (toIndex s a) g" and pa: "toPoint s (toIndex s a) = a"
    by (simp_all add: toPoint_toIndex)
  from fr have op: "open_ok s g" and co: "closed_ok s g" by (simp_all add: frontier_inv_def)
  from st pa have "step_ok s (toPoint s (toIndex s a)) b" by simp
  with co ca have "isClosed s (toIndex s b) g \<or> getGCost s (toIndex s b) g < INT_MAX"
    unfolding closed_ok_def by blast
  with op empty have cb: "isClosed s (toIndex s b) g"
    unfolding open_ok_def by auto
  from st have "b \<in> set (collectNeighbors s a)" by (simp add: step_ok_def)
  note np = collectNeighbors_props(2,3) [OF this]
  from "3.IH"(2) [OF r] cb np show ?case by simp
qed

lemma route_ok_walkable:
  "route_ok s ps \<Longrightarrow> \<forall>p \<in> set (tl ps). isWalkable s (px p) (py p)"
  by (induction ps rule: induct_list012) (auto simp: step_ok_def)

subsection \<open>A closed end cell gives a path\<close>

lemma buildPath_loop_nonempty:
  assumes inv: "search_inv s g si" and li: "links_inv s g si" and hp: "hasParent s cur g"
  shows "\<exists>path. buildPath_loop s si g cur acc = Some path \<and> path \<noteq> []"
  using hp
proof (induction "nat (getGCost s cur g)" arbitrary: cur acc rule: less_induct)
  case less
  from less.prems have c0: "0 \<le> cur" by (simp add: hasParent_def)
  show ?case
  proof (cases "cur = si")
    case True
    with c0 show ?thesis by (subst buildPath_loop.simps) simp
  next
    case False
    let ?q = "getParent s cur g"
    note l = search_inv_link [OF inv less.prems False]
    from li less.prems False have hq: "hasParent s ?q g" by (simp add: links_inv_def)
    then have q0: "0 \<le> ?q" by (simp add: hasParent_def)
    from l(2) have qc: "?q \<noteq> cur" by auto
    have "nat (getGCost s ?q g) < nat (getGCost s cur g)"
      using l(2) search_inv_nonneg [OF inv, of ?q] by simp
    from less.hyps [OF this hq, of "acc @ [toPoint s cur]"] obtain path where
      r: "buildPath_loop s si g ?q (acc @ [toPoint s cur]) = Some path" "path \<noteq> []"
      by blast
    from c0 False less.prems q0 qc r(1) have "buildPath_loop s si g cur acc = Some path"
      by (subst buildPath_loop.simps) simp
    with r(2) show ?thesis by blast
  qed
qed

subsection \<open>Breadth-first search finds routes only\<close>

lemma reach_step: "reach s start k q \<Longrightarrow> step_ok s q p \<Longrightarrow> reach s start (Suc k) p"
proof -
  assume "reach s start k q" and st: "step_ok s q p"
  then obtain ps where ps: "hd ps = start" "last ps = q" "route_ok s ps" "length ps = Suc k"
    unfolding reach_def by blast
  then have ne: "ps \<noteq> []" by auto
  have "route_ok s (ps @ [p])"
    using ps(3) ne st ps(2) by (intro route_ok_snoc) simp_all
  moreover have "hd (ps @ [p]) = start" using ne ps(1) by simp
  ultimately show ?thesis
    unfolding reach_def using ps(4) by (intro exI [of _ "ps @ [p]"]) simp
qed

lemma bfs_levels_sound:
  assumes "bfs_levels s goal fuel visited frontier d = Some r"
      and "\<forall>p \<in> set frontier. reach s start d p"
  shows "reach s start r goal"
  using assms
proof (induction fuel arbitrary: visited frontier d)
  case 0
  then show ?case by (auto split: if_splits)
next
  case (Suc fuel)
  show ?case
  proof (cases "goal \<in> set frontier")
    case True
    with Suc.prems show ?thesis by auto
  next
    case False
    let ?v = "visited @ frontier"
    let ?n = "remdups (filter (\<lambda>q. q \<notin> set ?v) (concat (map (walkable_moves s) frontier)))"
    from False Suc.prems(1) have rec: "bfs_levels s goal fuel ?v ?n (Suc d) = Some r"
      by (simp split: if_splits)
    have "\<forall>p \<in> set ?n. reach s start (Suc d) p"
    proof
      fix p assume "p \<in> set ?n"
      then obtain q where q: "q \<in> set frontier" "step_ok s q p"
        by (auto simp: walkable_moves_iff)
      from Suc.prems(2) q(1) have "reach s start d q" by blast
      then show "reach s start (Suc d) p" using q(2) by (rule reach_step)
    qed
    from Suc.IH [OF rec this] show ?thesis .
  qed
qed

lemma bfs_distance_route:
  assumes "bfs_distance s start goal = Some d"
  shows "\<exists>ps. ps \<noteq> [] \<and> hd ps = start \<and> last ps = goal \<and> route_ok s ps"
    and "isWalkable s (px start) (py start)"
proof -
  have w: "isWalkable s (px start) (py start) \<and> isWalkable s (px goal) (py goal)"
  proof (rule ccontr)
    assume "\<not> ?thesis"
    then have "bfs_distance s start goal = None"
      unfolding bfs_distance_def by (rule if_not_P)
    with assms show False by simp
  qed
  then show "isWalkable s (px start) (py start)" ..
  have "bfs_distance s start goal = bfs_levels s goal (total_cells s) [] [start] 0"
    unfolding bfs_distance_def using w by (rule if_P)
  with assms have run: "bfs_levels s goal (total_cells s) [] [start] 0 = Some d"
    by simp
  have "reach s start 0 start"
    unfolding reach_def by (intro exI [of _ "[start]"]) simp
  then have "\<forall>p \<in> set [start]. reach s start 0 p" by simp
  with run have "reach s start d goal" by (rule bfs_levels_sound)
  then obtain ps where ps: "hd ps = start" "last ps = goal" "route_ok s ps" "length ps = Suc d"
    unfolding reach_def by blast
  from ps(4) have "ps \<noteq> []" by auto
  with ps(1-3) show "\<exists>ps. ps \<noteq> [] \<and> hd ps = start \<and> last ps = goal \<and> route_ok s ps"
    by blast
qed

subsection \<open>A reachable end is found unless the budget runs out\<close>

lemma findPathInternal_complete:
  assumes ok: "scratch_ok s" and small: "m_width s * m_height s < INT_MAX"
      and run: "findPathInternal s start dest = Some (path, it, s')"
      and route: "route_ok s ps" "ps \<noteq> []" "hd ps = start" "last ps = dest"
      and ws: "isWalkable s (px start) (py start)"
  shows "path \<noteq> [] \<or> (it = m_width s * m_height s \<and> m_openHeap s' \<noteq> [])"
proof -
  have wd: "isWalkable s (px dest) (py dest)"
  proof (cases "tl ps = []")
    case True
    with route(2,3,4) have "dest = start" by (cases ps) simp_all
    with ws show ?thesis by simp
  next
    case False
    then have "last ps = last (tl ps)"
      using route(2) by (cases ps) simp_all
    with False have "last ps \<in> set (tl ps)"
      by (metis last_in_set)
    with route_ok_walkable [OF route(1)] route(4) show ?thesis by blast
  qed
  note gs = isWalkable_in_grid [OF ws]
  note gd = isWalkable_in_grid [OF wd]
  show ?thesis
  proof (cases "toIndex s start = toIndex s dest")
    case True
    with ws wd run have "path = [start]" by (simp add: findPathInternal_def Let_def)
    then show ?thesis by simp
  next
    case False
    let ?si = "toIndex s start"
    let ?ei = "toIndex s dest"
    let ?mx = "max (m_width s * m_height s) 1"
    from run ws wd False obtain g s1 fc where
      ng: "nextGeneration (ensureWorkingBuffers s) = (g, s1)" and
      sl0: "search_loop
        (pushOpenNode
          (setParent (setGCost (s1\<lparr>m_openHeap := []\<rparr>) ?si g 0) ?si g ?si)
          (QueueNode ?si (calculateHeuristic start dest) 0))
        ?ei dest g ?mx 0 = (s', it, fc)" and
      neg: "fc < 0 \<Longrightarrow> path = []" and
      pos: "0 \<le> fc \<Longrightarrow> buildPath s' ?si ?ei g (fc + 1) = Some path"
      by (rule findPathInternal_searchE) blast
    define s5 where "s5 = pushOpenNode
          (setParent (setGCost (s1\<lparr>m_openHeap := []\<rparr>) ?si g 0) ?si g ?si)
          (QueueNode ?si (calculateHeuristic start dest) 0)"
    note sl = sl0 [folded s5_def]
    have inv5: "search_inv s5 g ?si"
      unfolding s5_def using ok ng ws by (rule search_inv_initial)
    have fr5: "frontier_inv s5 g ?si ?ei 0" and li5: "links_inv s5 g ?si"
      unfolding s5_def using ok ng ws by (rule frontier_inv_initial)+
    have inv': "search_inv s' g ?si"
      using inv5 sl by (rule search_inv_search_loop)
    have sg: "same_grid s s'"
      using run by (rule same_grid_findPathInternal)
    show ?thesis
    proof (cases "fc < 0")
      case nonneg: False
      then have "0 \<le> fc" by simp
      from links_search_loop [OF inv5 li5 sl this]
      have li': "links_inv s' g ?si" and hp: "hasParent s' ?ei g" by blast+
      from buildPath_loop_nonempty [OF inv' li' hp, of "[]"] pos [OF \<open>0 \<le> fc\<close>]
      show ?thesis by (simp add: buildPath_def)
    next
      case True
      have mx: "?mx < INT_MAX"
        using small by (simp add: INT_MAX_def)
      from frontier_search_loop [OF inv5 li5 fr5 sl True mx]
      have fr': "frontier_inv s' g ?si ?ei it" and stop: "m_openHeap s' = [] \<or> ?mx \<le> it"
        by blast+
      have heap: "m_openHeap s' \<noteq> []"
      proof
        assume empty: "m_openHeap s' = []"
        from fr' have "getGCost s' ?si g < INT_MAX" and op: "open_ok s' g"
          and nc: "\<not> isClosed s' ?ei g"
          by (simp_all add: frontier_inv_def)
        with empty have "isClosed s' ?si g"
          unfolding open_ok_def by auto
        then have c0: "isClosed s' (toIndex s' (hd ps)) g"
          by (simp add: route(3) same_grid_toIndex [OF sg])
        have r': "route_ok s' ps"
          using route(1) by (simp add: route_ok_same_grid [OF sg])
        have x: "0 \<le> px (hd ps)" "px (hd ps) < m_width s'"
          using gs sg by (simp_all add: route(3) same_grid_def)
        from closed_route [OF fr' empty r' route(2) c0 x]
        have "isClosed s' ?ei g"
          by (simp add: route(4) same_grid_toIndex [OF sg])
        with nc show False by simp
      qed
      with stop have ge: "?mx \<le> it" by simp
      have idx: "0 \<le> ?ei" "nat ?ei < total_cells s"
        using toIndex_range [of dest s] gd by simp_all
      have sh5: "same_shape s1 s5"
      proof -
        have "same_shape s1 (s1\<lparr>m_openHeap := []\<rparr>)" by (simp add: same_shape_def)
        then show ?thesis
          unfolding s5_def
          by (meson same_shape_trans same_shape_setGCost same_shape_setParent same_shape_pushOpenNode)
      qed
      have len: "nat ?ei < length (m_closedGeneration s5)"
        using sh5 nextGeneration_result(3) [OF ng] ensureWorkingBuffers_length [of s] idx(2)
        by (simp add: same_shape_def)
      have "it \<le> ?mx"
        using search_loop_result [OF sl _ idx(1) len] by simp
      moreover have "1 \<le> m_width s * m_height s"
        using toIndex_range(1,2) [of dest s] gd by linarith
      ultimately have "it = m_width s * m_height s"
        using ge by simp
      with heap show ?thesis by simp
    qed
  qed
qed

lemma findPath_complete:
  assumes ok: "scratch_ok s" and small: "m_width s * m_height s < INT_MAX"
      and run: "findPath s t buildings start dest = Some (path, it, s')"
      and bfs: "bfs_distance s' start dest = Some d"
  shows "path \<noteq> [] \<or> (it = m_width s * m_height s \<and> m_openHeap s' \<noteq> [])"
proof -
  let ?s1 = "if m_obstaclesDirty s then updateBuildingObstacles s t buildings else s"
  have ok1: "scratch_ok ?s1" using ok by simp
  have dims: "m_width ?s1 = m_width s" "m_height ?s1 = m_height s" by simp_all
  from run have run1: "findPathInternal ?s1 start dest = Some (path, it, s')"
    by (simp add: findPath_def Let_def)
  then have sg: "same_grid ?s1 s'" by (rule same_grid_findPathInternal)
  from bfs_distance_route [OF bfs] obtain ps where
    ps: "ps \<noteq> []" "hd ps = start" "last ps = dest" "route_ok s' ps"
    and w: "isWalkable s' (px start) (py start)"
    by blast
  have r: "route_ok ?s1 ps"
    using ps(4) unfolding route_ok_same_grid [OF sg] .
  have ws: "isWalkable ?s1 (px start) (py start)"
    using w unfolding same_grid_isWalkable [OF sg] .
  have small1: "m_width ?s1 * m_height ?s1 < INT_MAX"
    using small unfolding dims .
  from findPathInternal_complete [OF ok1 small1 run1 r ps(1,2,3) ws] show ?thesis
    unfolding dims .
qed

subsection \<open>The building conversion is computed in binary32\<close>

text \<open>
  With the grid offset \<open>-(1/2 - 2\<^sup>-\<^sup>2\<^sup>5)\<close>, a binary32 value, the exact difference
  \<open>1 + 1/2 - 2\<^sup>-\<^sup>2\<^sup>5\<close> for the cell coordinate 1 lies below \<open>3/2\<close>, but the binary32
  subtraction yields \<open>3/2\<close>, which is rounded to 2: the building blocks the column 2.
\<close>

lemma binary32_examples:
  "float_of_int 16777217 = 16777216 \<and> float_of_int (- 16777219) = - 16777220 \<and>
   to_binary32 (1 / 3) = 11184811 / 33554432 \<and> to_binary32 (1 / 2 ^ 150) = 0 \<and>
   to_binary32 (3 / 2 ^ 150) = 2 / 2 ^ 149"
  by code_simp

lemma building_cell_binary32_example:
  "float_sub (float_of_int 1) (- (1 / 2 - 1 / 2 ^ 25)) = 3 / 2 \<and>
   cpp_round (1 - - (1 / 2 - 1 / 2 ^ 25)) = 1 \<and>
   cpp_round (float_sub (float_of_int 1) (- (1 / 2 - 1 / 2 ^ 25))) = 2 \<and>
   m_obstacles
     (updateBuildingObstacles (setGridOffset (Pathfinding 3 1) (- (1 / 2 - 1 / 2 ^ 25)) 0)
        no_terrain [[(1, 0)]]) = [[0, 0, 1]]"
  by code_simp

subsection \<open>The iteration budget and reachable cells\<close>

text \<open>
  The iteration budget counts the pops of superseded heap entries too, so it can run out
  before a reachable end cell is closed: on this 7 by 7 grid the end cell is twelve moves
  from the start, and the query gives up after 49 iterations.
\<close>

lemma findPath_budget_exhausted_example:
  "map_option (\<lambda>r. (fst r, fst (snd r)))
     (findPath (Pathfinding 7 7) no_terrain [[(3, 1), (1, 2), (5, 3), (6, 3), (4, 4), (5, 5)]]
        (Point 0 0) (Point 5 4)) = Some ([], 49) \<and>
   bfs_distance
     (updateBuildingObstacles (Pathfinding 7 7) no_terrain
        [[(3, 1), (1, 2), (5, 3), (6, 3), (4, 4), (5, 5)]])
     (Point 0 0) (Point 5 4) = Some 12"
  by code_simp

subsection \<open>The well-formedness predicates hold in every state the engine reaches\<close>

lemma scratch_ok_Pathfinding: "scratch_ok (Pathfinding w h)"
  by (simp add: Pathfinding_def ensureWorkingBuffers_def Let_def scratch_ok_def)

lemma grid_ok_Pathfinding: "0 \<le> w \<Longrightarrow> 0 \<le> h \<Longrightarrow> grid_ok (Pathfinding w h)"
  by (simp add: Pathfinding_def ensureWorkingBuffers_def Let_def grid_ok_def)

lemma grid_ok_same_grid: "same_grid s s' \<Longrightarrow> grid_ok s' = grid_ok s"
  by (simp add: same_grid_def grid_ok_def)

lemma grid_ok_setObstacle:
  assumes "grid_ok s"
  shows "grid_ok (setObstacle s x y b)"
proof (cases "x \<ge> 0 \<and> x < m_width s \<and> y \<ge> 0 \<and> y < m_height s")
  case False
  have "setObstacle s x y b = s"
    unfolding setObstacle_def by (rule if_not_P [OF False])
  with assms show ?thesis by simp
next
  case True
  let ?row = "(m_obstacles s ! nat y)[nat x := (if b then 1 else 0)]"
  have eq: "setObstacle s x y b = s\<lparr>m_obstacles := (m_obstacles s)[nat y := ?row]\<rparr>"
    unfolding setObstacle_def by (rule if_P [OF True])
  have "nat y < length (m_obstacles s)"
    using True assms by (simp add: grid_ok_def)
  then have "length ?row = nat (m_width s)"
    using assms by (simp add: grid_ok_def)
  with assms show ?thesis
    unfolding eq grid_ok_def
    by (auto dest!: set_update_subset_insert [THEN subsetD])
qed

lemma grid_ok_updateBuildingObstacles:
  assumes "grid_ok s"
  shows "grid_ok (updateBuildingObstacles s t buildings)"
proof (cases "m_obstaclesDirty s")
  case False
  with assms show ?thesis by (simp add: updateBuildingObstacles_def)
next
  case True
  let ?h = "nat (m_height s)" and ?w = "nat (m_width s)"
  have "rect (m_obstacles s) ?h ?w"
    using assms by (simp add: grid_ok_def rect_def)
  then have r0: "rect (clear_obstacles (m_obstacles s)) ?h ?w"
    by (rule rect_clear_obstacles)
  then have "rect (if ts_isInitialized t then terrain_pass s t (clear_obstacles (m_obstacles s))
                   else clear_obstacles (m_obstacles s)) ?h ?w"
    using terrain_pass_nth [OF r0, of t] by simp
  from building_pass_nth [OF this, of buildings] True assms show ?thesis
    by (simp add: updateBuildingObstacles_def Let_def grid_ok_def rect_def)
qed

lemma scratch_ok_setClosed:
  assumes "scratch_ok s" and "g \<le> m_generationCounter s"
  shows "scratch_ok (setClosed s i g)"
  using assms unfolding scratch_ok_def setClosed_def
  by (auto dest!: set_update_subset_insert [THEN subsetD])

lemma scratch_ok_setGCost:
  assumes "scratch_ok s" and "g \<le> m_generationCounter s"
  shows "scratch_ok (setGCost s i g c)"
  using assms unfolding scratch_ok_def setGCost_def
  by (auto dest!: set_update_subset_insert [THEN subsetD])

lemma scratch_ok_setParent:
  assumes "scratch_ok s" and "g \<le> m_generationCounter s"
  shows "scratch_ok (setParent s i g p)"
  using assms unfolding scratch_ok_def setParent_def
  by (auto dest!: set_update_subset_insert [THEN subsetD])

lemma scratch_ok_heap [simp]: "scratch_ok (s\<lparr>m_openHeap := h\<rparr>) = scratch_ok s"
  by (simp add: scratch_ok_def)

lemma scratch_ok_pushOpenNode [simp]: "scratch_ok (pushOpenNode s n) = scratch_ok s"
  by (simp add: pushOpenNode_def Let_def)

lemma scratch_ok_popOpenNode: "popOpenNode s = Some (n, s') \<Longrightarrow> scratch_ok s' = scratch_ok s"
  by (erule popOpenNode_state) simp

lemma counter_setGCost [simp]: "m_generationCounter (setGCost s i g c) = m_generationCounter s"
  by (simp add: setGCost_def)

lemma counter_setParent [simp]: "m_generationCounter (setParent s i g p) = m_generationCounter s"
  by (simp add: setParent_def)

lemma counter_setClosed [simp]: "m_generationCounter (setClosed s i g) = m_generationCounter s"
  by (simp add: setClosed_def)

lemma counter_pushOpenNode [simp]: "m_generationCounter (pushOpenNode s n) = m_generationCounter s"
  by (simp add: pushOpenNode_def Let_def)

lemma scratch_ok_relax_neighbors:
  assumes "scratch_ok s" and "g \<le> m_generationCounter s"
  shows "scratch_ok (relax_neighbors s cur e g ns)"
  using assms
proof (induction ns arbitrary: s)
  case Nil
  then show ?case by simp
next
  case (Cons n ns)
  let ?s' = "pushOpenNode
                (setParent (setGCost s (toIndex s n) g (gCost cur + 1))
                   (toIndex s n) g (node_index cur))
                (QueueNode (toIndex s n)
                   (gCost cur + 1 + calculateHeuristic n e) (gCost cur + 1))"
  have ok': "scratch_ok ?s'"
    using Cons.prems by (simp add: scratch_ok_setParent scratch_ok_setGCost)
  have cnt': "g \<le> m_generationCounter ?s'"
    using Cons.prems(2) by simp
  from Cons.IH [OF ok' cnt'] Cons.IH [OF Cons.prems] show ?case
    by simp
qed

lemma scratch_ok_search_body:
  assumes "scratch_ok s" and "g \<le> m_generationCounter s" and "search_body s ei e g = (s', r)"
  shows "scratch_ok s'"
proof (cases "popOpenNode s")
  case None
  with assms show ?thesis by (simp add: search_body_def)
next
  case (Some a)
  obtain cur s1 where a: "a = (cur, s1)" by (cases a)
  with Some have pop: "popOpenNode s = Some (cur, s1)" by simp
  have ok1: "scratch_ok s1"
    using assms(1) scratch_ok_popOpenNode [OF pop] by simp
  have cnt1: "g \<le> m_generationCounter s1"
    using assms(2) same_shape_popOpenNode [OF pop] by (simp add: same_shape_def)
  let ?s2 = "setClosed s1 (node_index cur) g"
  have ok2: "scratch_ok ?s2"
    using ok1 cnt1 by (rule scratch_ok_setClosed)
  have cnt2: "g \<le> m_generationCounter ?s2"
    using cnt1 by simp
  have "scratch_ok (relax_neighbors ?s2 cur e g (collectNeighbors ?s2 (toPoint ?s2 (node_index cur))))"
    using ok2 cnt2 by (rule scratch_ok_relax_neighbors)
  with assms(3) pop ok1 ok2 show ?thesis
    by (auto simp: search_body_def Let_def split: if_splits)
qed

lemma scratch_ok_search_loop:
  assumes "scratch_ok s" and "g \<le> m_generationCounter s"
      and "search_loop s ei e g mx it = (s', it', fc)"
  shows "scratch_ok s'"
  using assms
proof (induction s ei e g mx it arbitrary: s' it' fc rule: search_loop.induct)
  case (1 s ei e g mx it)
  show ?case
  proof (cases "m_openHeap s \<noteq> [] \<and> it < mx")
    case False
    with "1.prems" show ?thesis by (simp add: search_loop.simps)
  next
    case True
    obtain s1 r where body: "search_body s ei e g = (s1, r)" by (cases "search_body s ei e g")
    note ok1 = scratch_ok_search_body [OF "1.prems"(1,2) body]
    have cnt1: "g \<le> m_generationCounter s1"
      using "1.prems"(2) same_shape_search_body [OF body] by (simp add: same_shape_def)
    show ?thesis
    proof (cases r)
      case None
      with True body "1.prems"(3) have rec: "search_loop s1 ei e g mx (it + 1) = (s', it', fc)"
        by (simp add: search_loop.simps [of s])
      from "1.IH" [OF True body [symmetric] None ok1 cnt1 rec] show ?thesis .
    next
      case (Some c)
      with True body "1.prems"(3) have "s' = s1"
        by (simp add: search_loop.simps [of s])
      with ok1 show ?thesis by simp
    qed
  qed
qed

lemma scratch_ok_findPathInternal:
  assumes "scratch_ok s" and "findPathInternal s start dest = Some (path, it, s')"
  shows "scratch_ok s'"
proof (cases "isWalkable s (px start) (py start) \<and> isWalkable s (px dest) (py dest) \<and>
              toIndex s start \<noteq> toIndex s dest")
  case False
  with assms(2) have "s' = ensureWorkingBuffers s"
    by (auto simp: findPathInternal_def Let_def split: if_splits)
  with ensureWorkingBuffers_sizes(1) [OF assms(1)] show ?thesis by simp
next
  case True
  with assms(2) obtain g s1 fc where
    ng: "nextGeneration (ensureWorkingBuffers s) = (g, s1)" and
    sl: "search_loop
       (pushOpenNode
          (setParent (setGCost (s1\<lparr>m_openHeap := []\<rparr>) (toIndex s start) g 0)
             (toIndex s start) g (toIndex s start))
          (QueueNode (toIndex s start) (calculateHeuristic start dest) 0))
       (toIndex s dest) dest g (max (m_width s * m_height s) 1) 0 = (s', it, fc)"
    by (elim findPathInternal_searchE) simp_all
  have ok1: "scratch_ok s1"
    using ensureWorkingBuffers_sizes(1) [OF assms(1)] ng by (rule scratch_ok_nextGeneration)
  have cnt: "m_generationCounter s1 = g"
    using ng by (rule nextGeneration_result(2))
  let ?s5 = "pushOpenNode
          (setParent (setGCost (s1\<lparr>m_openHeap := []\<rparr>) (toIndex s start) g 0)
             (toIndex s start) g (toIndex s start))
          (QueueNode (toIndex s start) (calculateHeuristic start dest) 0)"
  have "scratch_ok ?s5"
    using ok1 cnt by (simp add: scratch_ok_setParent scratch_ok_setGCost)
  moreover have "g \<le> m_generationCounter ?s5"
    using cnt by simp
  ultimately show ?thesis using sl by (rule scratch_ok_search_loop)
qed

lemma scratch_ok_findPath:
  assumes "scratch_ok s" and "findPath s t buildings start dest = Some (path, it, s')"
  shows "scratch_ok s'"
proof -
  let ?s1 = "if m_obstaclesDirty s then updateBuildingObstacles s t buildings else s"
  have "scratch_ok ?s1" using assms(1) by simp
  moreover from assms(2) have "findPathInternal ?s1 start dest = Some (path, it, s')"
    by (simp add: findPath_def Let_def)
  ultimately show ?thesis by (rule scratch_ok_findPathInternal)
qed

lemma grid_ok_findPath:
  assumes "grid_ok s" and "findPath s t buildings start dest = Some (path, it, s')"
  shows "grid_ok s'"
proof -
  let ?s1 = "if m_obstaclesDirty s then updateBuildingObstacles s t buildings else s"
  have "grid_ok ?s1" using assms(1) by (simp add: grid_ok_updateBuildingObstacles)
  moreover from assms(2) have "findPathInternal ?s1 start dest = Some (path, it, s')"
    by (simp add: findPath_def Let_def)
  then have "same_grid ?s1 s'" by (rule same_grid_findPathInternal)
  ultimately show ?thesis by (simp only: grid_ok_same_grid)
qed

section \<open>The claims\<close>

subsection \<open>C1\<close>

text \<open>
  C1, as the code has it, on a grid of fewer than \<open>2\<^sup>3\<^sup>1 - 1\<close> cells: every query
  returns.  When breadth-first search reaches \<open>end\<close> from \<open>start\<close> on the grid of the
  query, the returned path is non-empty, unless the main loop stopped after its whole
  budget of \<open>width \<times> height\<close> iterations with entries still in the open heap; and a
  non-empty path has at least as many moves as the breadth-first distance.  Every
  non-empty path starts at \<open>start\<close>, ends at \<open>end\<close> and joins consecutive points by
  admitted moves between 8-neighbours.
\<close>

theorem findPath_returns_route:
  assumes "scratch_ok s" and "m_width s * m_height s < INT_MAX"
  shows "\<exists>path it s'. findPath s t buildings start dest = Some (path, it, s') \<and>
           (\<forall>d. bfs_distance s' start dest = Some d \<longrightarrow>
              (path \<noteq> [] \<or> (it = m_width s * m_height s \<and> m_openHeap s' \<noteq> [])) \<and>
              (path \<noteq> [] \<longrightarrow> Suc d \<le> length path)) \<and>
           (path \<noteq> [] \<longrightarrow>
              hd path = start \<and> last path = dest \<and>
              (\<forall>i. i + 1 < length path \<longrightarrow>
                 adjacent8 (path ! i) (path ! (i + 1)) \<and> step_ok s' (path ! i) (path ! (i + 1))))"
proof -
  from findPath_returns [OF assms(1), of t buildings start dest] obtain path it s'
    where run: "findPath s t buildings start dest = Some (path, it, s')"
    by blast
  have found: "path \<noteq> [] \<or> (it = m_width s * m_height s \<and> m_openHeap s' \<noteq> [])"
    if "bfs_distance s' start dest = Some d" for d
    using assms run that by (rule findPath_complete)
  have bound: "Suc d \<le> length path"
    if "bfs_distance s' start dest = Some d" and ne: "path \<noteq> []" for d
  proof -
    note snd = findPath_sound [OF assms(1) run ne]
    from that(1) snd(3) ne snd(1,2) show ?thesis by (rule bfs_distance_lower_bound)
  qed
  have valid: "hd path = start \<and> last path = dest \<and>
        (\<forall>i. i + 1 < length path \<longrightarrow>
           adjacent8 (path ! i) (path ! (i + 1)) \<and> step_ok s' (path ! i) (path ! (i + 1)))"
    if ne: "path \<noteq> []"
  proof -
    note snd = findPath_sound [OF assms(1) run ne]
    have steps: "adjacent8 (path ! i) (path ! (i + 1)) \<and> step_ok s' (path ! i) (path ! (i + 1))"
      if "i + 1 < length path" for i
      using route_ok_nth [OF snd(3) that] by (simp add: step_ok_adjacent8)
    from snd(1,2) steps show ?thesis by blast
  qed
  from found bound valid have
    "(\<forall>d. bfs_distance s' start dest = Some d \<longrightarrow>
        (path \<noteq> [] \<or> (it = m_width s * m_height s \<and> m_openHeap s' \<noteq> [])) \<and>
        (path \<noteq> [] \<longrightarrow> Suc d \<le> length path)) \<and>
     (path \<noteq> [] \<longrightarrow>
        hd path = start \<and> last path = dest \<and>
        (\<forall>i. i + 1 < length path \<longrightarrow>
           adjacent8 (path ! i) (path ! (i + 1)) \<and> step_ok s' (path ! i) (path ! (i + 1))))"
    by blast
  with run show ?thesis by blast
qed

theorem findPath_returns_route_witness:
  "scratch_ok (Pathfinding 3 6) \<and>
   m_width (Pathfinding 3 6) * m_height (Pathfinding 3 6) < INT_MAX \<and>
   map_option (\<lambda>r. (fst r, fst (snd r)))
     (findPath (Pathfinding 3 6) no_terrain [[(1, 2)]] (Point 0 0) (Point 2 5))
     = Some ([Point 0 0, Point 1 1, Point 2 1, Point 2 2, Point 2 3, Point 2 4, Point 2 5], 7) \<and>
   adjacent8 (Point 0 0) (Point 1 1) \<and>
   map_option (\<lambda>r. bfs_distance (snd (snd r)) (Point 0 0) (Point 2 5))
     (findPath (Pathfinding 3 6) no_terrain [[(1, 2)]] (Point 0 0) (Point 2 5)) = Some (Some 5) \<and>
   Suc 5 \<le> length [Point 0 0, Point 1 1, Point 2 1, Point 2 2, Point 2 3, Point 2 4, Point 2 5] \<and>
   scratch_ok (Pathfinding 7 7) \<and>
   m_width (Pathfinding 7 7) * m_height (Pathfinding 7 7) < INT_MAX \<and>
   map_option fst
     (findPath (Pathfinding 7 7) no_terrain [[(3, 1), (1, 2), (5, 3), (6, 3), (4, 4), (5, 5)]]
        (Point 0 0) (Point 5 4)) = Some [] \<and>
   map_option (\<lambda>r. bfs_distance (snd (snd r)) (Point 0 0) (Point 5 4))
     (findPath (Pathfinding 7 7) no_terrain [[(3, 1), (1, 2), (5, 3), (6, 3), (4, 4), (5, 5)]]
        (Point 0 0) (Point 5 4)) = Some (Some 12) \<and>
   map_option (\<lambda>r. (fst (snd r), m_openHeap (snd (snd r)) \<noteq> []))
     (findPath (Pathfinding 7 7) no_terrain [[(3, 1), (1, 2), (5, 3), (6, 3), (4, 4), (5, 5)]]
        (Point 0 0) (Point 5 4))
     = Some (m_width (Pathfinding 7 7) * m_height (Pathfinding 7 7), True)"
proof -
  let ?q = "findPath (Pathfinding 3 6) no_terrain [[(1, 2)]] (Point 0 0) (Point 2 5)"
  let ?p = "[Point 0 0, Point 1 1, Point 2 1, Point 2 2, Point 2 3, Point 2 4, Point 2 5]"
  let ?b = "[[(3, 1), (1, 2), (5, 3), (6, 3), (4, 4), (5, 5)]] :: (int \<times> int) list list"
  let ?q7 = "findPath (Pathfinding 7 7) no_terrain ?b (Point 0 0) (Point 5 4)"
  have ok: "scratch_ok (Pathfinding 3 6)"
    by code_simp
  have small: "m_width (Pathfinding 3 6) * m_height (Pathfinding 3 6) < INT_MAX"
    by code_simp
  have run: "map_option (\<lambda>r. (fst r, fst (snd r))) ?q = Some (?p, 7)"
    by code_simp
  have bfs: "map_option (\<lambda>r. bfs_distance (snd (snd r)) (Point 0 0) (Point 2 5)) ?q = Some (Some 5)"
    by code_simp
  from findPath_returns_route [OF ok small, of no_terrain "[[(1, 2)]]" "Point 0 0" "Point 2 5"]
  obtain path it s' where r: "?q = Some (path, it, s')"
    and v: "path \<noteq> [] \<longrightarrow>
              hd path = Point 0 0 \<and> last path = Point 2 5 \<and>
              (\<forall>i. i + 1 < length path \<longrightarrow>
                 adjacent8 (path ! i) (path ! (i + 1)) \<and> step_ok s' (path ! i) (path ! (i + 1)))"
    and c: "\<forall>d. bfs_distance s' (Point 0 0) (Point 2 5) = Some d \<longrightarrow>
              (path \<noteq> [] \<or>
               (it = m_width (Pathfinding 3 6) * m_height (Pathfinding 3 6) \<and> m_openHeap s' \<noteq> [])) \<and>
              (path \<noteq> [] \<longrightarrow> Suc d \<le> length path)"
    by blast
  from run r have p: "path = ?p" by simp
  from bfs r have b: "bfs_distance s' (Point 0 0) (Point 2 5) = Some 5" by simp
  from v p have steps: "\<forall>i. i + 1 < length ?p \<longrightarrow> adjacent8 (?p ! i) (?p ! (i + 1))"
    by blast
  from spec [OF steps, of 0] have a: "adjacent8 (Point 0 0) (Point 1 1)" by simp
  from c b p have "?p \<noteq> [] \<longrightarrow> Suc 5 \<le> length ?p"
    by blast
  then have bound: "Suc 5 \<le> length ?p" by simp
  have ok7: "scratch_ok (Pathfinding 7 7)"
    by code_simp
  have small7: "m_width (Pathfinding 7 7) * m_height (Pathfinding 7 7) < INT_MAX"
    by code_simp
  have run7: "map_option fst ?q7 = Some []"
    by code_simp
  have bfs7: "map_option (\<lambda>r. bfs_distance (snd (snd r)) (Point 0 0) (Point 5 4)) ?q7
      = Some (Some 12)"
    by code_simp
  from findPath_returns_route [OF ok7 small7, of no_terrain ?b "Point 0 0" "Point 5 4"]
  obtain path7 it7 s7 where r7: "?q7 = Some (path7, it7, s7)"
    and c7: "\<forall>d. bfs_distance s7 (Point 0 0) (Point 5 4) = Some d \<longrightarrow>
              (path7 \<noteq> [] \<or>
               (it7 = m_width (Pathfinding 7 7) * m_height (Pathfinding 7 7) \<and> m_openHeap s7 \<noteq> [])) \<and>
              (path7 \<noteq> [] \<longrightarrow> Suc d \<le> length path7)"
    by blast
  from run7 r7 have p7: "path7 = []" by simp
  from bfs7 r7 have b7: "bfs_distance s7 (Point 0 0) (Point 5 4) = Some 12" by simp
  from c7 b7 p7
  have "it7 = m_width (Pathfinding 7 7) * m_height (Pathfinding 7 7) \<and> m_openHeap s7 \<noteq> []"
    by blast
  with r7 have stop: "map_option (\<lambda>r. (fst (snd r), m_openHeap (snd (snd r)) \<noteq> [])) ?q7
      = Some (m_width (Pathfinding 7 7) * m_height (Pathfinding 7 7), True)"
    by simp
  from ok small run a bfs bound ok7 small7 run7 bfs7 stop show ?thesis
    by blast
qed

text \<open>
  C1 as stated fails: on a 3 by 6 grid whose only obstacle is the cell (1, 2), the
  query from (0, 0) to (2, 5) returns a path of six moves, while breadth-first search
  finds the distance five, as the route along the left column shows.
\<close>

theorem findPath_longer_than_bfs:
  "map_option fst (findPath (Pathfinding 3 6) no_terrain [[(1, 2)]] (Point 0 0) (Point 2 5))
     = Some [Point 0 0, Point 1 1, Point 2 1, Point 2 2, Point 2 3, Point 2 4, Point 2 5] \<and>
   bfs_distance (updateBuildingObstacles (Pathfinding 3 6) no_terrain [[(1, 2)]])
     (Point 0 0) (Point 2 5) = Some 5 \<and>
   route_ok (updateBuildingObstacles (Pathfinding 3 6) no_terrain [[(1, 2)]])
     [Point 0 0, Point 0 1, Point 0 2, Point 0 3, Point 1 4, Point 2 5]"
  by code_simp

subsection \<open>C2\<close>

text \<open>
  C2: a query returns, the main loop ran at most \<open>width \<times> height\<close> iterations, every
  pop counted, and when the loop is left without the end cell being closed for the
  generation of the query, the query returns the empty path.
\<close>

theorem findPath_iteration_budget:
  assumes "scratch_ok s" and "0 \<le> m_width s" and "0 \<le> m_height s"
  shows "\<exists>path it s'. findPath s t buildings start dest = Some (path, it, s') \<and>
           0 \<le> it \<and> it \<le> m_width s * m_height s \<and>
           (start \<noteq> dest \<and> \<not> isClosed s' (toIndex s' dest) (m_generationCounter s')
              \<longrightarrow> path = [])"
proof -
  from findPath_returns [OF assms(1), of t buildings start dest] obtain path it s'
    where run: "findPath s t buildings start dest = Some (path, it, s')"
    by blast
  from findPath_iteration_count [OF run assms(2,3)] run show ?thesis
    by blast
qed

theorem findPath_iteration_budget_witness:
  "scratch_ok (Pathfinding 3 1) \<and>
   map_option (\<lambda>r. (fst r, fst (snd r)))
     (findPath (Pathfinding 3 1) no_terrain [[(1, 0)]] (Point 0 0) (Point 2 0)) = Some ([], 1) \<and>
   1 \<le> m_width (Pathfinding 3 1) * m_height (Pathfinding 3 1) \<and>
   map_option (\<lambda>r. isClosed (snd (snd r)) (toIndex (snd (snd r)) (Point 2 0))
                  (m_generationCounter (snd (snd r))))
     (findPath (Pathfinding 3 1) no_terrain [[(1, 0)]] (Point 0 0) (Point 2 0)) = Some False"
proof -
  let ?q = "findPath (Pathfinding 3 1) no_terrain [[(1, 0)]] (Point 0 0) (Point 2 0)"
  have ok: "scratch_ok (Pathfinding 3 1)"
    by code_simp
  have run: "map_option (\<lambda>r. (fst r, fst (snd r))) ?q = Some ([], 1)"
    by code_simp
  have open_end: "map_option (\<lambda>r. isClosed (snd (snd r)) (toIndex (snd (snd r)) (Point 2 0))
                  (m_generationCounter (snd (snd r)))) ?q = Some False"
    by code_simp
  have w: "0 \<le> m_width (Pathfinding 3 1)" and h: "0 \<le> m_height (Pathfinding 3 1)"
    by code_simp+
  from findPath_iteration_budget [OF ok w h, of no_terrain "[[(1, 0)]]" "Point 0 0" "Point 2 0"]
  obtain path it s' where r: "?q = Some (path, it, s')"
    and b: "it \<le> m_width (Pathfinding 3 1) * m_height (Pathfinding 3 1)"
    by blast
  from run r have "it = 1" by simp
  with b have "1 \<le> m_width (Pathfinding 3 1) * m_height (Pathfinding 3 1)" by simp
  with ok run open_end show ?thesis by simp
qed

subsection \<open>C3\<close>

text \<open>
  C3: in every path a query returns, a diagonal step between consecutive points has both
  flanking orthogonal cells walkable in the obstacle grid of the query; and a diagonal
  neighbour is collected for a cell only when both flanking cells are walkable.
\<close>

theorem findPath_no_corner_cutting:
  assumes "scratch_ok s" and "findPath s t buildings start dest = Some (path, it, s')"
  shows "(i + 1 < length path \<and> px (path ! i) \<noteq> px (path ! (i + 1)) \<and>
          py (path ! i) \<noteq> py (path ! (i + 1)) \<longrightarrow>
            isWalkable s' (px (path ! (i + 1))) (py (path ! i)) \<and>
            isWalkable s' (px (path ! i)) (py (path ! (i + 1)))) \<and>
         (b \<in> set (collectNeighbors s' a) \<and> px b \<noteq> px a \<and> py b \<noteq> py a \<longrightarrow>
            isWalkable s' (px b) (py a) \<and> isWalkable s' (px a) (py b))"
proof -
  have diag: "isWalkable s' (px q) (py p) \<and> isWalkable s' (px p) (py q)"
    if "q \<in> set (collectNeighbors s' p)" "px q \<noteq> px p" "py q \<noteq> py p" for p q
    using collectNeighbors_props(8) [OF that] .
  have "isWalkable s' (px (path ! (i + 1))) (py (path ! i)) \<and>
        isWalkable s' (px (path ! i)) (py (path ! (i + 1)))"
    if i: "i + 1 < length path" and d: "px (path ! i) \<noteq> px (path ! (i + 1))"
      "py (path ! i) \<noteq> py (path ! (i + 1))"
  proof -
    from i have ne: "path \<noteq> []" by auto
    have "step_ok s' (path ! i) (path ! (i + 1))"
      using findPath_sound(3) [OF assms ne] i by (rule route_ok_nth)
    then have "path ! (i + 1) \<in> set (collectNeighbors s' (path ! i))"
      by (simp add: step_ok_def)
    with d show ?thesis by (intro diag) simp_all
  qed
  with diag [of b a] show ?thesis by blast
qed

theorem findPath_no_corner_cutting_witness:
  "scratch_ok (Pathfinding 2 2) \<and>
   map_option fst (findPath (Pathfinding 2 2) no_terrain [] (Point 0 0) (Point 1 1))
     = Some [Point 0 0, Point 1 1] \<and>
   map_option (\<lambda>r. isWalkable (snd (snd r)) 1 0 \<and> isWalkable (snd (snd r)) 0 1)
     (findPath (Pathfinding 2 2) no_terrain [] (Point 0 0) (Point 1 1)) = Some True"
proof -
  let ?q = "findPath (Pathfinding 2 2) no_terrain [] (Point 0 0) (Point 1 1)"
  have ok: "scratch_ok (Pathfinding 2 2)"
    by code_simp
  have run: "map_option fst ?q = Some [Point 0 0, Point 1 1]"
    by code_simp
  then obtain it s' where r: "?q = Some ([Point 0 0, Point 1 1], it, s')"
    by (cases ?q) auto
  from findPath_no_corner_cutting [OF ok r, where i = 0]
  have "isWalkable s' 1 0 \<and> isWalkable s' 0 1"
    by simp
  with ok run r show ?thesis by simp
qed

subsection \<open>C4\<close>

text \<open>
  C4, as the code has it: after the rebuild that a set dirty flag triggers, a cell of the
  grid is blocked exactly when the terrain service is initialised and either reports the
  cell unwalkable or does not cover it, or when some cell of a registered building is
  converted to it: the grid offset is subtracted from the cell coordinate in binary32
  arithmetic and the difference is rounded to the nearest integer, halves away from zero.
  Building cells that fall outside the grid change nothing, and the dirty flag is clear.
\<close>

theorem updateBuildingObstacles_rebuilds:
  assumes "grid_ok s" and "m_obstaclesDirty s"
      and "0 \<le> x" "x < m_width s" "0 \<le> z" "z < m_height s"
  shows "(\<not> isWalkable (updateBuildingObstacles s t buildings) x z \<longleftrightarrow>
            (ts_isInitialized t \<and>
               (\<not> (x < terrain_width t \<and> z < terrain_height t) \<or> \<not> ts_isWalkable t x z)) \<or>
            (\<exists>cells \<in> set buildings. \<exists>cell \<in> set cells.
               cpp_round (float_sub (float_of_int (fst cell)) (m_gridOffsetX s)) = x \<and>
               cpp_round (float_sub (float_of_int (snd cell)) (m_gridOffsetZ s)) = z)) \<and>
         \<not> m_obstaclesDirty (updateBuildingObstacles s t buildings) \<and>
         grid_ok (updateBuildingObstacles s t buildings)"
proof -
  let ?h = "nat (m_height s)" and ?w = "nat (m_width s)"
  let ?o0 = "clear_obstacles (m_obstacles s)"
  let ?o1 = "if ts_isInitialized t then terrain_pass s t ?o0 else ?o0"
  let ?o2 = "building_pass s buildings ?o1"
  have r: "rect (m_obstacles s) ?h ?w"
    using assms(1) by (simp add: grid_ok_def rect_def)
  have r0: "rect ?o0 ?h ?w" using r by (rule rect_clear_obstacles)
  have zx: "nat z < ?h" "nat x < ?w" "int (nat x) = x" "int (nat z) = z"
    using assms(3-6) by simp_all
  have c0: "?o0 ! nat z ! nat x = 0"
    using r zx(1,2) by (rule nth_clear_obstacles)
  have r1: "rect ?o1 ?h ?w"
    using terrain_pass_nth [OF r0, of t] r0 by simp
  have c1: "?o1 ! nat z ! nat x \<noteq> 0 \<longleftrightarrow> ts_isInitialized t \<and> terrain_blocks t x z"
    using terrain_pass_nth [OF r0, of t] c0 zx by auto
  note bp = building_pass_nth [OF r1, of buildings]
  from bp have r2: "rect ?o2 ?h ?w" by blast
  from bp zx have c2: "?o2 ! nat z ! nat x \<noteq> 0 \<longleftrightarrow>
      ?o1 ! nat z ! nat x \<noteq> 0 \<or>
      (\<exists>cells \<in> set buildings. \<exists>cell \<in> set cells.
         cpp_round (float_sub (float_of_int (fst cell)) (m_gridOffsetX s)) = x \<and> cpp_round (float_sub (float_of_int (snd cell)) (m_gridOffsetZ s)) = z)"
    by metis
  have upd: "updateBuildingObstacles s t buildings = s\<lparr>m_obstacles := ?o2, m_obstaclesDirty := False\<rparr>"
    using assms(2) by (simp add: updateBuildingObstacles_def Let_def)
  have walk: "isWalkable (updateBuildingObstacles s t buildings) x z \<longleftrightarrow> ?o2 ! nat z ! nat x = 0"
    unfolding upd using assms(3-6) by (simp add: isWalkable_def)
  have grid: "grid_ok (updateBuildingObstacles s t buildings)"
    unfolding upd using r2 assms(1) by (simp add: grid_ok_def rect_def)
  have clean: "\<not> m_obstaclesDirty (updateBuildingObstacles s t buildings)"
    unfolding upd by simp
  from walk c2 c1 grid clean show ?thesis
    unfolding terrain_blocks_def by blast
qed

theorem updateBuildingObstacles_rebuilds_witness:
  "grid_ok (setGridOffset (Pathfinding 2 2) (- (1 / 2)) 0) \<and>
   m_obstaclesDirty (setGridOffset (Pathfinding 2 2) (- (1 / 2)) 0) \<and>
   \<not> isWalkable
       (updateBuildingObstacles (setGridOffset (Pathfinding 2 2) (- (1 / 2)) 0) strip_terrain [[(1, 0)]])
       0 1 \<and>
   isWalkable
     (updateBuildingObstacles (setGridOffset (Pathfinding 2 2) (- (1 / 2)) 0) no_terrain [[(1, 0)]])
     0 1 \<and>
   \<not> isWalkable
       (updateBuildingObstacles (setGridOffset (Pathfinding 2 2) (- (1 / 2)) 0) no_terrain [[(0, 1)]])
       1 1 \<and>
   \<not> m_obstaclesDirty
       (updateBuildingObstacles (setGridOffset (Pathfinding 2 2) (- (1 / 2)) 0) strip_terrain [[(1, 0)]])"
proof -
  let ?s = "setGridOffset (Pathfinding 2 2) (- (1 / 2)) 0"
  have grid: "grid_ok ?s" and dirty: "m_obstaclesDirty ?s"
    by code_simp+
  have w: "(0::int) < m_width ?s" "(1::int) < m_width ?s"
    and h: "(1::int) < m_height ?s"
    by code_simp+
  have off: "m_gridOffsetX ?s = - (1 / 2)" "m_gridOffsetZ ?s = 0"
    by (simp_all add: setGridOffset_def)
  have rnd: "cpp_round (float_sub (float_of_int 1) (- (1 / 2))) = 2"
    "cpp_round (float_sub (float_of_int 0) (- (1 / 2))) = 1"
    "cpp_round (float_sub (float_of_int 0) 0) = 0"
    "cpp_round (float_sub (float_of_int 1) 0) = 1"
    by code_simp+
  have terr: "ts_isInitialized strip_terrain" "\<not> ts_isWalkable strip_terrain 0 1"
    "\<not> ts_isInitialized no_terrain"
    by (simp_all add: strip_terrain_def no_terrain_def)
  note a = updateBuildingObstacles_rebuilds [OF grid dirty _ w(1) _ h,
      where t = strip_terrain and buildings = "[[(1, 0)]]"]
  note b = updateBuildingObstacles_rebuilds [OF grid dirty _ w(1) _ h,
      where t = no_terrain and buildings = "[[(1, 0)]]"]
  note c = updateBuildingObstacles_rebuilds [OF grid dirty _ w(2) _ h,
      where t = no_terrain and buildings = "[[(0, 1)]]"]
  from a terr have 1:
    "\<not> isWalkable (updateBuildingObstacles ?s strip_terrain [[(1, 0)]]) 0 1"
    "\<not> m_obstaclesDirty (updateBuildingObstacles ?s strip_terrain [[(1, 0)]])"
    by simp_all
  from b terr have 2: "isWalkable (updateBuildingObstacles ?s no_terrain [[(1, 0)]]) 0 1"
    by (simp add: off rnd)
  from c have 3: "\<not> isWalkable (updateBuildingObstacles ?s no_terrain [[(0, 1)]]) 1 1"
    by (simp add: off rnd)
  from grid dirty 1 2 3 show ?thesis by blast
qed

text \<open>
  C4 as stated fails when the terrain service is not initialised: the terrain pass is
  skipped as a whole, so a cell that no terrain covers stays walkable.
\<close>

theorem rebuild_skips_uninitialised_terrain:
  "m_obstaclesDirty (Pathfinding 1 1) \<and> \<not> ts_isInitialized no_terrain \<and>
   \<not> (0 < terrain_width no_terrain \<and> 0 < terrain_height no_terrain) \<and>
   isWalkable (updateBuildingObstacles (Pathfinding 1 1) no_terrain []) 0 0"
  by code_simp

subsection \<open>C5\<close>

text \<open>
  C5: let \<^verbatim>\<open>nextGeneration()\<close> return \<open>g\<close> in a state whose stamps do not exceed the
  counter (as in every state the engine reaches).  Then \<open>g\<close> is not 0 and is the new
  counter value; after any sequence \<open>ws\<close> of writes stamped \<open>g\<close>, a cell that no
  \<^verbatim>\<open>setGCost\<close> of \<open>ws\<close> addresses still reads the infinite cost, a cell that no
  \<^verbatim>\<open>setParent\<close> addresses has no parent and reads \<open>-1\<close>, and a cell that no
  \<^verbatim>\<open>setClosed\<close> addresses is not closed.  Exactly when the increment wraps to zero, all
  five scratch arrays are cleared and the counter restarts at 1; otherwise the arrays are
  untouched and the counter is incremented.
\<close>

theorem nextGeneration_reads_sentinel:
  assumes "scratch_ok s" and "nextGeneration s = (g, s')"
  shows "g \<noteq> 0 \<and> m_generationCounter s' = g \<and>
         ((\<forall>c. SetGCost i c \<notin> set ws) \<longrightarrow> getGCost (apply_writes g ws s') i g = INT_MAX) \<and>
         ((\<forall>p. SetParent i p \<notin> set ws) \<longrightarrow>
            \<not> hasParent (apply_writes g ws s') i g \<and> getParent (apply_writes g ws s') i g = - 1) \<and>
         (SetClosed i \<notin> set ws \<longrightarrow> \<not> isClosed (apply_writes g ws s') i g) \<and>
         (if m_generationCounter s + 1 = 0
          then s' = s\<lparr>m_closedGeneration := replicate (length (m_closedGeneration s)) 0,
                      m_gCostGeneration := replicate (length (m_gCostGeneration s)) 0,
                      m_parentGeneration := replicate (length (m_parentGeneration s)) 0,
                      m_gCostValues := replicate (length (m_gCostValues s)) INT_MAX,
                      m_parentValues := replicate (length (m_parentValues s)) (- 1),
                      m_generationCounter := 1\<rparr>
          else s' = s\<lparr>m_generationCounter := m_generationCounter s + 1\<rparr>)"
proof -
  note fresh = nextGeneration_fresh [OF assms]
  have g0: "\<not> (0 \<le> i \<and> nat i < length (m_gCostGeneration s') \<and> m_gCostGeneration s' ! nat i = g)"
    using fresh(2) by (metis nth_mem)
  have p0: "\<not> hasParent s' i g"
    using fresh(3) unfolding hasParent_def by (metis nth_mem)
  have c0: "\<not> isClosed s' i g"
    using fresh(1) unfolding isClosed_def by (metis nth_mem)
  have 1: "getGCost (apply_writes g ws s') i g = INT_MAX" if "\<forall>c. SetGCost i c \<notin> set ws"
    using gCost_stamp_apply_writes [OF that, of g s'] g0 by (intro getGCost_unstamped) simp
  have 2: "\<not> hasParent (apply_writes g ws s') i g" if "\<forall>p. SetParent i p \<notin> set ws"
    using parent_stamp_apply_writes [OF that, of g s'] p0 by simp
  have 3: "\<not> isClosed (apply_writes g ws s') i g" if "SetClosed i \<notin> set ws"
    using closed_stamp_apply_writes [OF that, of g s'] c0 by simp
  have 4: "if m_generationCounter s + 1 = 0
          then s' = s\<lparr>m_closedGeneration := replicate (length (m_closedGeneration s)) 0,
                      m_gCostGeneration := replicate (length (m_gCostGeneration s)) 0,
                      m_parentGeneration := replicate (length (m_parentGeneration s)) 0,
                      m_gCostValues := replicate (length (m_gCostValues s)) INT_MAX,
                      m_parentValues := replicate (length (m_parentValues s)) (- 1),
                      m_generationCounter := 1\<rparr>
          else s' = s\<lparr>m_generationCounter := m_generationCounter s + 1\<rparr>"
    using assms(2) by (auto simp: nextGeneration_overflow nextGeneration_plain)
  from nextGeneration_result(1,2) [OF assms(2)] 1 2 3 4 show ?thesis
    by (simp add: getParent_def)
qed

theorem nextGeneration_reads_sentinel_witness:
  "scratch_ok wrapping_engine \<and> fst (nextGeneration wrapping_engine) = 1 \<and>
   getGCost (apply_writes 1 [SetGCost 0 3, SetClosed 1] (snd (nextGeneration wrapping_engine))) 1 1
     = INT_MAX \<and>
   getGCost (apply_writes 1 [SetGCost 0 3, SetClosed 1] (snd (nextGeneration wrapping_engine))) 0 1
     = 3 \<and>
   \<not> hasParent (apply_writes 1 [SetGCost 0 3, SetClosed 1] (snd (nextGeneration wrapping_engine))) 1 1 \<and>
   \<not> isClosed (apply_writes 1 [SetGCost 0 3, SetClosed 1] (snd (nextGeneration wrapping_engine))) 0 1 \<and>
   m_gCostGeneration (snd (nextGeneration wrapping_engine)) = [0, 0]"
proof -
  let ?ws = "[SetGCost 0 3, SetClosed 1]"
  define s' where "s' = snd (nextGeneration wrapping_engine)"
  have ok: "scratch_ok wrapping_engine"
    by code_simp
  have g: "fst (nextGeneration wrapping_engine) = 1"
    by code_simp
  then have ng: "nextGeneration wrapping_engine = (1, s')"
    unfolding s'_def by (metis prod.collapse)
  have wrap: "m_generationCounter wrapping_engine + 1 = 0"
    by code_simp
  have written: "getGCost (apply_writes 1 ?ws (snd (nextGeneration wrapping_engine))) 0 1 = 3"
    by code_simp
  have len: "replicate (length (m_gCostGeneration wrapping_engine)) (0 :: 32 word) = [0, 0]"
    by code_simp
  have p1: "\<forall>c. SetGCost 1 c \<notin> set ?ws" and p2: "\<forall>p. SetParent 1 p \<notin> set ?ws"
    and p3: "SetClosed 0 \<notin> set ?ws"
    by simp_all
  note t1 = nextGeneration_reads_sentinel [OF ok ng, where ws = ?ws and i = 1]
  note t0 = nextGeneration_reads_sentinel [OF ok ng, where ws = ?ws and i = 0]
  from t1 p1 have a: "getGCost (apply_writes 1 ?ws s') 1 1 = INT_MAX"
    by blast
  from t1 p2 have b: "\<not> hasParent (apply_writes 1 ?ws s') 1 1"
    by blast
  from t0 p3 have c: "\<not> isClosed (apply_writes 1 ?ws s') 0 1"
    by blast
  from t0 wrap have "m_gCostGeneration s' = replicate (length (m_gCostGeneration wrapping_engine)) 0"
    by simp
  with len have d: "m_gCostGeneration s' = [0, 0]"
    by simp
  from ok g a written b c d show ?thesis
    unfolding s'_def by blast
qed

subsection \<open>C6\<close>

text \<open>
  C6, as the code has it: after \<^verbatim>\<open>setObstacle(x, y, true)\<close> on an in-range cell, the
  next \<^verbatim>\<open>findPath\<close> call returns.  When the dirty flag is clear at that call, the call
  treats the cell as blocked and no path it returns passes through it.  When the dirty
  flag is set, the call rebuilds the grid first and returns exactly what it would have
  returned, path and engine state, had the edit not been made.
\<close>

theorem setObstacle_blocks_clean_query:
  assumes "scratch_ok s" and "grid_ok s"
      and "0 \<le> x" "x < m_width s" "0 \<le> y" "y < m_height s"
  shows "\<exists>path it s'.
           findPath (setObstacle s x y True) t buildings start dest = Some (path, it, s') \<and>
           (if m_obstaclesDirty s
            then findPath s t buildings start dest = Some (path, it, s')
            else Point x y \<notin> set path \<and> \<not> isWalkable s' x y)"
proof -
  let ?s = "setObstacle s x y True"
  have ok: "scratch_ok ?s" using assms(1) by simp
  from findPath_returns [OF ok, of t buildings start dest] obtain path it s'
    where run: "findPath ?s t buildings start dest = Some (path, it, s')"
    by blast
  have flag: "m_obstaclesDirty ?s = m_obstaclesDirty s"
    by (simp add: setObstacle_def)
  show ?thesis
  proof (cases "m_obstaclesDirty s")
    case True
    have "findPath ?s t buildings start dest = findPath s t buildings start dest"
      using True flag updateBuildingObstacles_setObstacle [OF True, of x y True t buildings]
      by (simp add: findPath_def)
    with run True show ?thesis by simp
  next
    case False
    have sg: "same_grid ?s s'"
    proof -
      from run False flag have "findPathInternal ?s start dest = Some (path, it, s')"
        by (simp add: findPath_def)
      then show ?thesis by (rule same_grid_findPathInternal)
    qed
    have blocked: "\<not> isWalkable s' x y"
      using isWalkable_setObstacle_blocked [OF assms(2-6)]
      by (simp add: same_grid_isWalkable [OF sg])
    have "Point x y \<notin> set path"
    proof
      assume mem: "Point x y \<in> set path"
      then have "path \<noteq> []" by auto
      from findPath_sound(4) [OF ok run this] mem
      have "isWalkable s' (px (Point x y)) (py (Point x y))" by blast
      with blocked show False by simp
    qed
    with blocked run False show ?thesis by simp
  qed
qed

theorem setObstacle_blocks_clean_query_witness:
  "scratch_ok (updateBuildingObstacles (Pathfinding 3 2) no_terrain []) \<and>
   grid_ok (updateBuildingObstacles (Pathfinding 3 2) no_terrain []) \<and>
   \<not> m_obstaclesDirty (updateBuildingObstacles (Pathfinding 3 2) no_terrain []) \<and>
   map_option fst
     (findPath (setObstacle (updateBuildingObstacles (Pathfinding 3 2) no_terrain []) 1 0 True)
        no_terrain [] (Point 0 0) (Point 2 0))
     = Some [Point 0 0, Point 0 1, Point 1 1, Point 2 1, Point 2 0] \<and>
   Point 1 0 \<notin> set [Point 0 0, Point 0 1, Point 1 1, Point 2 1, Point 2 0] \<and>
   scratch_ok (Pathfinding 3 2) \<and> grid_ok (Pathfinding 3 2) \<and> m_obstaclesDirty (Pathfinding 3 2) \<and>
   findPath (setObstacle (Pathfinding 3 2) 1 0 True) no_terrain [] (Point 0 0) (Point 2 0) =
     findPath (Pathfinding 3 2) no_terrain [] (Point 0 0) (Point 2 0)"
proof -
  let ?d = "Pathfinding 3 2"
  let ?s = "updateBuildingObstacles ?d no_terrain []"
  let ?q = "findPath (setObstacle ?s 1 0 True) no_terrain [] (Point 0 0) (Point 2 0)"
  have ok: "scratch_ok ?s" and grid: "grid_ok ?s" and clean: "\<not> m_obstaclesDirty ?s"
    by code_simp+
  have w: "(1::int) < m_width ?s" and h: "(0::int) < m_height ?s"
    by code_simp+
  have okd: "scratch_ok ?d" and gridd: "grid_ok ?d" and dirty: "m_obstaclesDirty ?d"
    by code_simp+
  have wd: "(1::int) < m_width ?d" and hd: "(0::int) < m_height ?d"
    by code_simp+
  have run: "map_option fst ?q = Some [Point 0 0, Point 0 1, Point 1 1, Point 2 1, Point 2 0]"
    by code_simp
  from setObstacle_blocks_clean_query [OF ok grid _ w _ h,
      of no_terrain "[]" "Point 0 0" "Point 2 0"] clean
  obtain path it s' where r: "?q = Some (path, it, s')" and a: "Point 1 0 \<notin> set path"
    by auto
  from run r have "path = [Point 0 0, Point 0 1, Point 1 1, Point 2 1, Point 2 0]"
    by simp
  with a have 1: "Point 1 0 \<notin> set [Point 0 0, Point 0 1, Point 1 1, Point 2 1, Point 2 0]"
    by simp
  from setObstacle_blocks_clean_query [OF okd gridd _ wd _ hd,
      of no_terrain "[]" "Point 0 0" "Point 2 0"] dirty
  have 2: "findPath (setObstacle ?d 1 0 True) no_terrain [] (Point 0 0) (Point 2 0) =
     findPath ?d no_terrain [] (Point 0 0) (Point 2 0)"
    by auto
  from ok grid clean run 1 okd gridd dirty 2 show ?thesis by blast
qed

text \<open>
  C6 as stated fails when the dirty flag is set at the time of the query, as it is right
  after construction: the rebuild clears the grid first, the direct edit is lost, and
  the returned path runs through the cell.
\<close>

theorem setObstacle_lost_when_dirty:
  "m_obstaclesDirty (setObstacle (Pathfinding 3 1) 1 0 True) \<and>
   \<not> isWalkable (setObstacle (Pathfinding 3 1) 1 0 True) 1 0 \<and>
   map_option fst
     (findPath (setObstacle (Pathfinding 3 1) 1 0 True) no_terrain [] (Point 0 0) (Point 2 0))
     = Some [Point 0 0, Point 1 0, Point 2 0]"
  by code_simp

subsection \<open>C7\<close>

text \<open>
  C7, as the code has it: if \<open>start\<close> or \<open>end\<close> lies outside the grid, or is unwalkable
  in the obstacle grid the query searches, \<^verbatim>\<open>findPath\<close> returns the empty path; and
  \<^verbatim>\<open>isWalkable\<close> is false for every coordinate outside the grid.  The grid the query
  searches is the current grid when the dirty flag is clear, and the grid rebuilt from
  terrain and buildings when it is set.
\<close>

theorem findPath_invalid_endpoint:
  "((x < 0 \<or> x \<ge> m_width s \<or> y < 0 \<or> y \<ge> m_height s) \<longrightarrow> \<not> isWalkable s x y) \<and>
   ((px start < 0 \<or> px start \<ge> m_width s \<or> py start < 0 \<or> py start \<ge> m_height s \<or>
     px dest < 0 \<or> px dest \<ge> m_width s \<or> py dest < 0 \<or> py dest \<ge> m_height s \<or>
     \<not> isWalkable (if m_obstaclesDirty s then updateBuildingObstacles s t buildings else s)
          (px start) (py start) \<or>
     \<not> isWalkable (if m_obstaclesDirty s then updateBuildingObstacles s t buildings else s)
          (px dest) (py dest)) \<longrightarrow>
    map_option fst (findPath s t buildings start dest) = Some [])"
proof -
  let ?s1 = "if m_obstaclesDirty s then updateBuildingObstacles s t buildings else s"
  have dims: "m_width ?s1 = m_width s" "m_height ?s1 = m_height s" by simp_all
  have oob: "\<not> isWalkable ?s1 (px p) (py p)"
    if "px p < 0 \<or> px p \<ge> m_width s \<or> py p < 0 \<or> py p \<ge> m_height s" for p
    using that dims by (intro isWalkable_out_of_range) presburger
  have "map_option fst (findPath s t buildings start dest) = Some []"
    if "\<not> isWalkable ?s1 (px start) (py start) \<or> \<not> isWalkable ?s1 (px dest) (py dest)"
    using findPathInternal_unwalkable [OF that] by (simp add: findPath_def Let_def)
  with oob [of start] oob [of dest] show ?thesis
    by (auto simp: isWalkable_def)
qed

theorem findPath_invalid_endpoint_witness:
  "\<not> isWalkable (Pathfinding 2 2) 5 0 \<and>
   map_option fst (findPath (Pathfinding 2 2) no_terrain [[(1, 1)]] (Point 5 0) (Point 0 0)) = Some [] \<and>
   map_option fst (findPath (Pathfinding 2 2) no_terrain [[(1, 1)]] (Point 0 0) (Point 1 1)) = Some []"
proof -
  have a: "m_width (Pathfinding 2 2) \<le> 5"
    by code_simp
  have b: "\<not> isWalkable (if m_obstaclesDirty (Pathfinding 2 2)
                          then updateBuildingObstacles (Pathfinding 2 2) no_terrain [[(1, 1)]]
                          else Pathfinding 2 2) (px (Point 1 1)) (py (Point 1 1))"
    by code_simp
  show ?thesis
    using a b
      findPath_invalid_endpoint [where s = "Pathfinding 2 2" and x = 5 and y = 0
        and start = "Point 5 0" and dest = "Point 0 0" and t = no_terrain and buildings = "[[(1, 1)]]"]
      findPath_invalid_endpoint [where s = "Pathfinding 2 2" and x = 5 and y = 0
        and start = "Point 0 0" and dest = "Point 1 1" and t = no_terrain and buildings = "[[(1, 1)]]"]
    by simp
qed

text \<open>
  C7 as stated fails for a cell that is blocked in the current grid while the dirty flag
  is set: on a fresh 3 by 1 engine, after \<^verbatim>\<open>setObstacle(1, 0, true)\<close> the cell (1, 0)
  is unwalkable, but the query rebuilds the grid, which clears the cell, and returns a
  path that starts on it.
\<close>

theorem findPath_starts_on_cell_blocked_before_rebuild:
  "\<not> isWalkable (setObstacle (Pathfinding 3 1) 1 0 True) 1 0 \<and>
   map_option fst
     (findPath (setObstacle (Pathfinding 3 1) 1 0 True) no_terrain [] (Point 1 0) (Point 2 0))
     = Some [Point 1 0, Point 2 0]"
  by code_simp

subsection \<open>C8\<close>

text \<open>
  C8, as the code has it: for every point \<open>p\<close> that is walkable in the grid the query
  searches (the current grid when the dirty flag is clear, the rebuilt grid when it is
  set), \<^verbatim>\<open>findPath(p, p)\<close> returns exactly \<open>[p]\<close>.
\<close>

theorem findPath_same_point:
  assumes "isWalkable (if m_obstaclesDirty s then updateBuildingObstacles s t buildings else s)
             (px p) (py p)"
  shows "map_option fst (findPath s t buildings p p) = Some [p]"
  using findPathInternal_same_point [OF assms] by (simp add: findPath_def Let_def)

theorem findPath_same_point_witness:
  "isWalkable (updateBuildingObstacles (Pathfinding 2 2) no_terrain [[(1, 1)]]) 1 0 \<and>
   map_option fst (findPath (Pathfinding 2 2) no_terrain [[(1, 1)]] (Point 1 0) (Point 1 0))
     = Some [Point 1 0]"
proof -
  have d: "m_obstaclesDirty (Pathfinding 2 2)"
    by code_simp
  have w: "isWalkable (updateBuildingObstacles (Pathfinding 2 2) no_terrain [[(1, 1)]]) 1 0"
    by code_simp
  show ?thesis
    using d w findPath_same_point [where s = "Pathfinding 2 2" and t = no_terrain
        and buildings = "[[(1, 1)]]" and p = "Point 1 0"]
    by simp
qed

text \<open>
  C8 as stated fails for a point that is walkable in the current grid and blocked by the
  rebuild: on a fresh 2 by 2 engine the cell (1, 1) is walkable, a building occupies it,
  and the query from the cell to itself returns the empty path.
\<close>

theorem findPath_same_point_blocked_by_rebuild:
  "isWalkable (Pathfinding 2 2) 1 1 \<and>
   map_option fst (findPath (Pathfinding 2 2) no_terrain [[(1, 1)]] (Point 1 1) (Point 1 1))
     = Some []"
  by code_simp

subsection \<open>C9\<close>

text \<open>
  C9: \<^verbatim>\<open>fetchCompletedPaths\<close> returns the whole result queue in the order the results were
  appended and leaves the queue empty; on an empty queue it returns the empty list and
  the engine state is unchanged.
\<close>

theorem fetchCompletedPaths_drains:
  "fetchCompletedPaths s = (m_resultQueue s, s\<lparr>m_resultQueue := []\<rparr>) \<and>
   (m_resultQueue s = [] \<longrightarrow> fetchCompletedPaths s = ([], s))"
  by (auto simp: fetchCompletedPaths_def fetch_loop_append)

theorem fetchCompletedPaths_drains_witness:
  "m_resultQueue (Pathfinding 1 1) = [] \<and>
   fetchCompletedPaths (Pathfinding 1 1) = ([], Pathfinding 1 1) \<and>
   fetchCompletedPaths ((Pathfinding 1 1)\<lparr>m_resultQueue := [(1, [Point 0 0]), (2, [])]\<rparr>) =
     ([(1, [Point 0 0]), (2, [])], Pathfinding 1 1)"
proof -
  have e: "m_resultQueue (Pathfinding 1 1) = []"
    by (simp add: Pathfinding_def ensureWorkingBuffers_def Let_def)
  have u: "(Pathfinding 1 1)\<lparr>m_resultQueue := []\<rparr> = Pathfinding 1 1"
    using e by simp
  show ?thesis
    using e u fetchCompletedPaths_drains [of "Pathfinding 1 1"]
      fetchCompletedPaths_drains [of "(Pathfinding 1 1)\<lparr>m_resultQueue := [(1, [Point 0 0]), (2, [])]\<rparr>"]
    by simp
qed

subsection \<open>C10\<close>

text \<open>
  C10: when the dirty flag is clear, a \<^verbatim>\<open>findPath\<close> query leaves the obstacle grid as it
  was, and with it every member other than the scratch arrays, the generation counter and
  the open heap.
\<close>

theorem findPath_keeps_obstacle_grid:
  assumes "\<not> m_obstaclesDirty s"
      and "findPath s t buildings start dest = Some (path, it, s')"
  shows "m_obstacles s' = m_obstacles s \<and> m_width s' = m_width s \<and> m_height s' = m_height s \<and>
         m_obstaclesDirty s' = m_obstaclesDirty s \<and> m_gridOffsetX s' = m_gridOffsetX s \<and>
         m_gridOffsetZ s' = m_gridOffsetZ s \<and> m_resultQueue s' = m_resultQueue s"
proof -
  from assms have "findPathInternal s start dest = Some (path, it, s')"
    by (simp add: findPath_def)
  then have "same_grid s s'" by (rule same_grid_findPathInternal)
  then show ?thesis by (simp add: same_grid_def)
qed

theorem findPath_keeps_obstacle_grid_witness:
  "\<not> m_obstaclesDirty (updateBuildingObstacles (Pathfinding 3 2) no_terrain [[(1, 0)]]) \<and>
   map_option fst (findPath (updateBuildingObstacles (Pathfinding 3 2) no_terrain [[(1, 0)]])
      no_terrain [] (Point 0 0) (Point 2 0)) = Some [Point 0 0, Point 0 1, Point 1 1, Point 2 1, Point 2 0] \<and>
   map_option (\<lambda>r. m_obstacles (snd (snd r)))
     (findPath (updateBuildingObstacles (Pathfinding 3 2) no_terrain [[(1, 0)]])
        no_terrain [] (Point 0 0) (Point 2 0)) = Some [[0, 1, 0], [0, 0, 0]]"
proof -
  let ?s = "updateBuildingObstacles (Pathfinding 3 2) no_terrain [[(1, 0)]]"
  have clean: "\<not> m_obstaclesDirty ?s"
    by code_simp
  have grid: "m_obstacles ?s = [[0, 1, 0], [0, 0, 0]]"
    by code_simp
  have run: "map_option fst (findPath ?s no_terrain [] (Point 0 0) (Point 2 0))
      = Some [Point 0 0, Point 0 1, Point 1 1, Point 2 1, Point 2 0]"
    by code_simp
  then obtain it s' where r: "findPath ?s no_terrain [] (Point 0 0) (Point 2 0)
      = Some ([Point 0 0, Point 0 1, Point 1 1, Point 2 1, Point 2 0], it, s')"
    by (cases "findPath ?s no_terrain [] (Point 0 0) (Point 2 0)") auto
  from findPath_keeps_obstacle_grid [OF clean r] have "m_obstacles s' = m_obstacles ?s"
    by simp
  with clean grid run r show ?thesis by simp
qed

end
